theory Spec2Isabelle
  imports Complex_Main
begin

section \<open>The event log of OpenAlice: an append-only JSONL file with live listeners\<close>

text \<open>
  The source is one TypeScript module: \<^verbatim>\<open>createEventLog\<close> returns an object whose
  methods close over the variables \<^verbatim>\<open>seq\<close>, \<^verbatim>\<open>listeners\<close>, \<^verbatim>\<open>typeListeners\<close> and
  \<^verbatim>\<open>logPath\<close>. The embedding makes that closure state a record, passes it explicitly,
  and turns every throw into a value of a sum type.

  Conventions.
  \<^item> A JavaScript string is a list of code units; the model keeps the code units below
    256 (\<^typ>\<open>char\<close>).
  \<^item> The counter \<^verbatim>\<open>seq\<close> and the clock \<^verbatim>\<open>ts\<close> are \<^typ>\<open>int\<close>: doubles are exact on integers
    of magnitude below \<open>2^53\<close>, and the model does not go beyond them. The numbers a
    caller passes to \<^verbatim>\<open>read\<close>, and those \<^verbatim>\<open>read\<close> finds in the file, are any JavaScript
    numbers.
  \<^item> \<^verbatim>\<open>JSON.parse\<close>, \<^verbatim>\<open>JSON.stringify\<close>, \<^verbatim>\<open>Date.now\<close> and the file system are not code
    of the module. The two JSON functions are parameters of the model; the clock and
    the outcome of each file operation are inputs of the operation that uses them.
  \<^item> The module is written for one caller at a time: no two operations interleave.
\<close>

subsection \<open>Strings: \<^verbatim>\<open>trim\<close>, \<^verbatim>\<open>trimEnd\<close>, \<^verbatim>\<open>split('\n')\<close>\<close>

text \<open>
  White space and line terminators of ECMAScript among the code units below 256:
  TAB, LF, VT, FF, CR, SPACE and NBSP.
\<close>

definition is_ws :: "char \<Rightarrow> bool" where
  "is_ws c \<longleftrightarrow>
     c = CHR 0x09 \<or> c = CHR 0x0A \<or> c = CHR 0x0B \<or> c = CHR 0x0C \<or> c = CHR 0x0D \<or>
     c = CHR 0x20 \<or> c = CHR 0xA0"

definition trimStart :: "string \<Rightarrow> string" where
  "trimStart s = dropWhile is_ws s"

definition trimEnd :: "string \<Rightarrow> string" where
  "trimEnd s = rev (dropWhile is_ws (rev s))"

definition trim :: "string \<Rightarrow> string" where
  "trim s = trimEnd (trimStart s)"

text \<open>
  \<^verbatim>\<open>s.split('\n')\<close>: the pieces between the line feeds, so that a string with \<open>n\<close>
  line feeds has \<open>n + 1\<close> pieces and the empty string has the one piece \<open>''''\<close>. The
  result is never the empty list, so the last case of the definition is never taken.
\<close>

fun split_nl :: "string \<Rightarrow> string list" where
  "split_nl [] = [[]]"
| "split_nl (c # cs) =
     (if c = CHR 0x0A then [] # split_nl cs
      else (case split_nl cs of
              l # ls \<Rightarrow> (c # l) # ls
            | [] \<Rightarrow> [[c]]))"

subsection \<open>Records and the JSON functions\<close>

record 'p EventLogEntry =
  seq :: int
  ts :: int
  type :: string
  payload :: 'p

text \<open>
  \<^verbatim>\<open>const entry: EventLogEntry = JSON.parse(line)\<close> in \<^verbatim>\<open>recoverLastSeq\<close>, whose result
  is the number \<^verbatim>\<open>append\<close> counts on from. A parser yields \<open>None\<close> where \<^verbatim>\<open>JSON.parse\<close>
  throws and the entry it returns otherwise; the source gives the parsed value the type
  \<^verbatim>\<open>EventLogEntry\<close> without a check, and so does the model of the recovery.
  \<^verbatim>\<open>JSON.stringify(entry)\<close> yields \<open>None\<close> where it throws (a payload that cannot be
  serialised).
\<close>

type_synonym 'p parser = "string \<Rightarrow> 'p EventLogEntry option"
type_synonym 'p stringifier = "'p EventLogEntry \<Rightarrow> string option"

datatype error = FsError | StringifyError

text \<open>
  \<^verbatim>\<open>readFile(logPath, 'utf-8')\<close>: the content, or the error \<^verbatim>\<open>ENOENT\<close>, or another
  error.
\<close>

datatype read_result = ReadOk string | ReadENOENT | ReadError

subsection \<open>\<^verbatim>\<open>recoverLastSeq\<close>\<close>

text \<open>
  The loop \<^verbatim>\<open>for (let i = lines.length - 1; i >= 0; i--)\<close>; the third argument is
  \<open>i + 1\<close>, and the value after the loop is the \<^verbatim>\<open>return 0\<close> that follows it.
\<close>

fun recover_loop :: "'p parser \<Rightarrow> string list \<Rightarrow> nat \<Rightarrow> int" where
  "recover_loop parse lines 0 = 0"
| "recover_loop parse lines (Suc i) =
     (let line = trim (lines ! i) in
      if line = [] then recover_loop parse lines i
      else (case parse line of
              Some entry \<Rightarrow> seq entry
            | None \<Rightarrow> recover_loop parse lines i))"

definition recoverLastSeq :: "'p parser \<Rightarrow> read_result \<Rightarrow> error + int" where
  "recoverLastSeq parse rr =
     (case rr of
        ReadENOENT \<Rightarrow> Inr 0
      | ReadError \<Rightarrow> Inl FsError
      | ReadOk raw \<Rightarrow>
          if trim raw = [] then Inr 0
          else (let lines = split_nl (trimEnd raw)
                in Inr (recover_loop parse lines (length lines))))"

text \<open>
  The scan as the specification words it, over the lines from the last to the first:
  an empty line is skipped, a line that decodes gives its \<^verbatim>\<open>seq\<close> at once, a line that
  does not decode is passed over, and the value is 0 when no line is left. The file is
  empty or missing, or it is split into its lines.
\<close>

fun first_decoded :: "(string \<Rightarrow> 'p EventLogEntry option) \<Rightarrow> string list \<Rightarrow> int" where
  "first_decoded decode [] = 0"
| "first_decoded decode (l # ls) =
     (if l = [] then first_decoded decode ls
      else (case decode l of
              Some e \<Rightarrow> seq e
            | None \<Rightarrow> first_decoded decode ls))"

definition spec_recover :: "(string \<Rightarrow> 'p EventLogEntry option) \<Rightarrow> string option \<Rightarrow> int" where
  "spec_recover decode f =
     (case f of
        None \<Rightarrow> 0
      | Some raw \<Rightarrow> first_decoded decode (rev (split_nl raw)))"

subsection \<open>Numbers and JSON values\<close>

text \<open>
  The options of \<^verbatim>\<open>read\<close> are JavaScript numbers, and \<^verbatim>\<open>read\<close> compares them with what it
  finds in the file. A number is a finite value (a double; the model takes a rational),
  one of the two infinities, or \<^verbatim>\<open>NaN\<close>. \<open>number_le a b\<close> is \<^verbatim>\<open>a <= b\<close> on numbers, which
  is false whenever one of the two is \<^verbatim>\<open>NaN\<close>; \<^verbatim>\<open>a >= b\<close> is \<open>number_le b a\<close>.
\<close>

datatype number = Finite rat | PosInfinity | NegInfinity | NaN

fun number_le :: "number \<Rightarrow> number \<Rightarrow> bool" where
  "number_le NaN b = False"
| "number_le a NaN = False"
| "number_le NegInfinity b = True"
| "number_le a PosInfinity = True"
| "number_le (Finite x) (Finite y) = (x \<le> y)"
| "number_le PosInfinity b = False"
| "number_le a NegInfinity = False"

text \<open>
  The values \<^verbatim>\<open>JSON.parse\<close> returns; an object is the list of its members, each key once.
  \<^verbatim>\<open>read\<close> gives the parsed value the type \<^verbatim>\<open>EventLogEntry\<close> without a check, tests it with
  \<^verbatim>\<open><=\<close> and \<^verbatim>\<open>!==\<close>, which are defined on every value, and hands it to its caller: the
  model of \<^verbatim>\<open>read\<close> keeps the values as they are parsed.
\<close>

datatype json =
  JNull | JBool bool | JNumber number | JString string | JArray "json list"
| JObject "(string \<times> json) list"

type_synonym json_parser = "string \<Rightarrow> json option"

text \<open>
  \<^verbatim>\<open>entry.seq\<close> and \<^verbatim>\<open>entry.type\<close>: reading a property of \<^verbatim>\<open>null\<close> throws a \<^verbatim>\<open>TypeError\<close>
  (\<open>None\<close>); an object gives its member of that name, or \<^verbatim>\<open>undefined\<close>; every other value
  gives \<^verbatim>\<open>undefined\<close>, as no prototype has a property of one of these two names.
\<close>

datatype jsvalue = Undefined | Defined json

fun get :: "json \<Rightarrow> string \<Rightarrow> jsvalue option" where
  "get JNull key = None"
| "get (JObject members) key =
     Some (case map_of members key of None \<Rightarrow> Undefined | Some v \<Rightarrow> Defined v)"
| "get v key = Some Undefined"

text \<open>
  The operand \<^verbatim>\<open>entry.seq\<close> of \<^verbatim>\<open><=\<close> is converted to a number, the other operand being
  one: \<^verbatim>\<open>undefined\<close> is \<^verbatim>\<open>NaN\<close>, \<^verbatim>\<open>null\<close> is 0, \<^verbatim>\<open>true\<close> is 1 and \<^verbatim>\<open>false\<close> is 0. The
  conversion of a string, and of an array or an object through its \<^verbatim>\<open>valueOf\<close> and
  \<^verbatim>\<open>toString\<close>, is a parameter of the model, a function that yields \<open>None\<close> where the
  conversion throws.
\<close>

type_synonym coercion = "json \<Rightarrow> number option"

fun to_number :: "coercion \<Rightarrow> jsvalue \<Rightarrow> number option" where
  "to_number coerce Undefined = Some NaN"
| "to_number coerce (Defined JNull) = Some (Finite 0)"
| "to_number coerce (Defined (JBool b)) = Some (Finite (if b then 1 else 0))"
| "to_number coerce (Defined (JNumber n)) = Some n"
| "to_number coerce (Defined v) = coerce v"

subsection \<open>\<^verbatim>\<open>read\<close>\<close>

text \<open>
  \<^verbatim>\<open>results.length >= limit\<close>, where \<^verbatim>\<open>limit\<close> is \<^verbatim>\<open>readOpts?.limit ?? Infinity\<close>.
\<close>

definition reached :: "nat \<Rightarrow> number \<Rightarrow> bool" where
  "reached n limit \<longleftrightarrow> number_le limit (Finite (of_nat n))"

text \<open>
  \<^verbatim>\<open>filterType && entry.type !== filterType\<close>: an absent filter and the empty string
  are both falsy, and \<^verbatim>\<open>entry.type\<close> is equal to the filter only when it is that string.
\<close>

fun type_mismatch :: "string option \<Rightarrow> json \<Rightarrow> bool" where
  "type_mismatch None entry = False"
| "type_mismatch (Some f) entry = (f \<noteq> [] \<and> get entry ''type'' \<noteq> Some (Defined (JString f)))"

text \<open>
  The loop \<^verbatim>\<open>for (const line of lines)\<close> with its \<^verbatim>\<open>continue\<close>s and its \<^verbatim>\<open>break\<close>;
  the last argument is \<^verbatim>\<open>results\<close>. Whatever is thrown inside the \<^verbatim>\<open>try\<close> (by
  \<^verbatim>\<open>JSON.parse\<close>, by the property read, by the conversion) is caught, and the loop goes
  on with the next line.
\<close>

fun read_loop ::
  "json_parser \<Rightarrow> coercion \<Rightarrow> number \<Rightarrow> number \<Rightarrow> string option \<Rightarrow> string list \<Rightarrow>
   json list \<Rightarrow> json list" where
  "read_loop parse coerce afterSeq limit filterType [] results = results"
| "read_loop parse coerce afterSeq limit filterType (line # lines) results =
     (if trim line = [] then read_loop parse coerce afterSeq limit filterType lines results
      else (case parse line of
              None \<Rightarrow> read_loop parse coerce afterSeq limit filterType lines results
            | Some entry \<Rightarrow>
                (case get entry ''seq'' of
                   None \<Rightarrow> read_loop parse coerce afterSeq limit filterType lines results
                 | Some s \<Rightarrow>
                     (case to_number coerce s of
                        None \<Rightarrow> read_loop parse coerce afterSeq limit filterType lines results
                      | Some n \<Rightarrow>
                          if number_le n afterSeq
                          then read_loop parse coerce afterSeq limit filterType lines results
                          else if type_mismatch filterType entry
                          then read_loop parse coerce afterSeq limit filterType lines results
                          else (let results' = results @ [entry]
                                in if reached (length results') limit then results'
                                   else read_loop parse coerce afterSeq limit filterType lines
                                          results')))))"

text \<open>The options of \<^verbatim>\<open>read\<close>, each of them optional.\<close>

record ReadOpts =
  opt_afterSeq :: "number option"
  opt_limit :: "number option"
  opt_type :: "string option"

definition no_opts :: ReadOpts where
  "no_opts = \<lparr>opt_afterSeq = None, opt_limit = None, opt_type = None\<rparr>"

definition read ::
  "json_parser \<Rightarrow> coercion \<Rightarrow> read_result \<Rightarrow> ReadOpts \<Rightarrow> error + json list" where
  "read parse coerce rr readOpts =
     (let afterSeq = (case opt_afterSeq readOpts of None \<Rightarrow> Finite 0 | Some a \<Rightarrow> a);
          limit = (case opt_limit readOpts of None \<Rightarrow> PosInfinity | Some k \<Rightarrow> k);
          filterType = opt_type readOpts
      in case rr of
           ReadENOENT \<Rightarrow> Inr []
         | ReadError \<Rightarrow> Inl FsError
         | ReadOk raw \<Rightarrow>
             Inr (read_loop parse coerce afterSeq limit filterType (split_nl raw) []))"

text \<open>
  The values of a file: those of the lines that are not blank and that \<^verbatim>\<open>JSON.parse\<close>
  reads, in the order of the file. A value is kept by the loop when no \<^verbatim>\<open>continue\<close> and no
  throw skips it.
\<close>

definition decodable :: "json_parser \<Rightarrow> string \<Rightarrow> json list" where
  "decodable parse raw = List.map_filter parse (filter (\<lambda>line. trim line \<noteq> []) (split_nl raw))"

definition kept :: "coercion \<Rightarrow> number \<Rightarrow> string option \<Rightarrow> json \<Rightarrow> bool" where
  "kept coerce afterSeq filterType entry \<longleftrightarrow>
     (case get entry ''seq'' of
        None \<Rightarrow> False
      | Some s \<Rightarrow>
          (case to_number coerce s of
             None \<Rightarrow> False
           | Some n \<Rightarrow> \<not> number_le n afterSeq \<and> \<not> type_mismatch filterType entry))"

text \<open>
  The words of the specification for what \<^verbatim>\<open>read\<close> returns. A record is an object whose
  \<^verbatim>\<open>seq\<close> is a number (\<^verbatim>\<open>JSON.parse\<close> yields no \<^verbatim>\<open>NaN\<close>); a record is eligible when its \<^verbatim>\<open>seq\<close> is
  strictly greater than \<^verbatim>\<open>afterSeq\<close> and, if a type is given, its type is that type. A
  limit, when given, bounds the count: the result is the longest run of eligible
  records from the start whose count is at most the limit. Without \<^verbatim>\<open>afterSeq\<close> every
  record with a \<^verbatim>\<open>seq\<close> above 0 is eligible.
\<close>

fun member :: "json \<Rightarrow> string \<Rightarrow> json option" where
  "member (JObject members) key = map_of members key"
| "member v key = None"

definition seq_of :: "json \<Rightarrow> number option" where
  "seq_of v =
     (case member v ''seq'' of
        Some (JNumber n) \<Rightarrow> if n = NaN then None else Some n
      | _ \<Rightarrow> None)"

fun greater :: "number \<Rightarrow> number \<Rightarrow> bool" where
  "greater (Finite x) (Finite y) = (y < x)"
| "greater PosInfinity (Finite y) = True"
| "greater PosInfinity NegInfinity = True"
| "greater (Finite x) NegInfinity = True"
| "greater a b = False"

definition eligible :: "number \<Rightarrow> string option \<Rightarrow> json \<Rightarrow> bool" where
  "eligible afterSeq ty entry \<longleftrightarrow>
     (case seq_of entry of None \<Rightarrow> False | Some n \<Rightarrow> greater n afterSeq) \<and>
     (case ty of None \<Rightarrow> True | Some t \<Rightarrow> member entry ''type'' = Some (JString t))"


fun after_seq :: "number option \<Rightarrow> number" where
  "after_seq None = Finite 0"
| "after_seq (Some a) = a"


text \<open>
  The files, limits and orders the properties of \<^verbatim>\<open>read\<close> speak of. In a file of records,
  every line that \<^verbatim>\<open>JSON.parse\<close> reads holds a record or \<^verbatim>\<open>null\<close>. A whole limit is a whole
  number from 1 on, or \<^verbatim>\<open>Infinity\<close>. A list of values is ascending when the \<^verbatim>\<open>seq\<close> of each
  one is a number and less than the \<^verbatim>\<open>seq\<close> of every later one.
\<close>

definition records_only :: "json_parser \<Rightarrow> string \<Rightarrow> bool" where
  "records_only parse raw \<longleftrightarrow> list_all (\<lambda>v. v = JNull \<or> seq_of v \<noteq> None) (decodable parse raw)"


fun nonpositive :: "number \<Rightarrow> bool" where
  "nonpositive (Finite q) = (q \<le> 0)"
| "nonpositive NegInfinity = True"
| "nonpositive n = False"



subsection \<open>The listener sets\<close>

text \<open>
  A listener is a function object, and the sets compare listeners by identity: a
  listener is modelled by its identity, a number. A \<^verbatim>\<open>Set\<close> keeps its elements in
  insertion order in a list; \<^verbatim>\<open>delete\<close> and \<^verbatim>\<open>clear\<close> empty the slot of an element and
  leave the list as long as it was, \<^verbatim>\<open>add\<close> of an element that is not in the set appends
  a slot. This is the list \<^verbatim>\<open>[[SetData]]\<close> of ECMAScript, which a running iteration
  reads by index.
\<close>

type_synonym lid = nat
type_synonym 'a jsset = "'a option list"

definition set_add :: "'a \<Rightarrow> 'a jsset \<Rightarrow> 'a jsset" where
  "set_add x s = (if Some x \<in> set s then s else s @ [Some x])"

definition set_delete :: "'a \<Rightarrow> 'a jsset \<Rightarrow> 'a jsset" where
  "set_delete x s = map (\<lambda>e. if e = Some x then None else e) s"

definition set_clear :: "'a jsset \<Rightarrow> 'a jsset" where
  "set_clear s = map (\<lambda>e. None) s"

definition set_size :: "'a jsset \<Rightarrow> nat" where
  "set_size s = length (filter (\<lambda>e. e \<noteq> None) s)"

text \<open>The elements of a set, in insertion order.\<close>

definition set_elems :: "'a jsset \<Rightarrow> 'a list" where
  "set_elems s = List.map_filter (\<lambda>e. e) s"

subsection \<open>The state of a log\<close>

text \<open>
  The variables \<^verbatim>\<open>createEventLog\<close> declares, with the file at \<^verbatim>\<open>logPath\<close> as \<open>logFile\<close> (\<open>None\<close> when
  it does not exist). \<^verbatim>\<open>lastSeq\<close> is the variable \<^verbatim>\<open>seq\<close>, which the method
  \<^verbatim>\<open>lastSeq: () => seq\<close> returns. The map \<^verbatim>\<open>typeListeners\<close> holds references to \<^verbatim>\<open>Set\<close>
  objects, and so do the unsubscribe functions \<^verbatim>\<open>subscribeType\<close> returns: the sets
  live in a store, \<open>heap\<close>, and \<open>nextAddr\<close> is the address of the next \<^verbatim>\<open>new Set()\<close>.
  \<open>delivered\<close> is not a variable of the source: it records every call \<^verbatim>\<open>fn(entry)\<close>
  the log has made, in order.
\<close>

type_synonym addr = nat

record 'p EventLog =
  logFile :: "string option"
  lastSeq :: int
  listeners :: "lid jsset"
  typeListeners :: "string \<rightharpoonup> addr"
  heap :: "addr \<Rightarrow> lid jsset"
  nextAddr :: addr
  delivered :: "(lid \<times> 'p EventLogEntry) list"

subsection \<open>\<^verbatim>\<open>subscribe\<close>, \<^verbatim>\<open>subscribeType\<close>, \<^verbatim>\<open>close\<close>\<close>

text \<open>
  The two kinds of function the subscriptions return, with the variables each one
  closes over: \<^verbatim>\<open>() => { listeners.delete(listener) }\<close> and
  \<^verbatim>\<open>() => { set.delete(listener); if (set.size === 0) typeListeners.delete(type) }\<close>.
\<close>

datatype unsub = UnsubListener lid | UnsubType string addr lid

definition subscribe :: "lid \<Rightarrow> 'p EventLog \<Rightarrow> unsub \<times> 'p EventLog" where
  "subscribe listener st =
     (UnsubListener listener, st\<lparr>listeners := set_add listener (listeners st)\<rparr>)"

definition subscribeType :: "string \<Rightarrow> lid \<Rightarrow> 'p EventLog \<Rightarrow> unsub \<times> 'p EventLog" where
  "subscribeType ty listener st =
     (case typeListeners st ty of
        None \<Rightarrow>
          (let a = nextAddr st
           in (UnsubType ty a listener,
               st\<lparr>heap := (heap st)(a := set_add listener []),
                  typeListeners := (typeListeners st)(ty \<mapsto> a),
                  nextAddr := Suc a\<rparr>))
      | Some a \<Rightarrow>
          (UnsubType ty a listener,
           st\<lparr>heap := (heap st)(a := set_add listener (heap st a))\<rparr>))"

fun call_unsub :: "unsub \<Rightarrow> 'p EventLog \<Rightarrow> 'p EventLog" where
  "call_unsub (UnsubListener listener) st =
     st\<lparr>listeners := set_delete listener (listeners st)\<rparr>"
| "call_unsub (UnsubType ty a listener) st =
     (let st1 = st\<lparr>heap := (heap st)(a := set_delete listener (heap st a))\<rparr>
      in if set_size (heap st1 a) = 0
         then st1\<lparr>typeListeners := (typeListeners st1)(ty := None)\<rparr>
         else st1)"

definition close :: "'p EventLog \<Rightarrow> 'p EventLog" where
  "close st = st\<lparr>listeners := set_clear (listeners st), typeListeners := Map.empty\<rparr>"

subsection \<open>Listeners as callers of the log\<close>

text \<open>
  A listener is code of the caller. What the log can observe of one call \<^verbatim>\<open>fn(entry)\<close>
  is the calls the listener makes on the registry before it completes, and whether it
  returns or throws. A behaviour gives both, for every listener, entry and state of the
  log at the call (the state holds \<open>delivered\<close>, so a listener may react to what it has
  received before). Listeners that start another \<^verbatim>\<open>append\<close> from inside a notification
  are outside the model, as every interleaving of operations is.
\<close>

datatype call = Subscribe lid | SubscribeType string lid | Unsubscribe unsub | Close

datatype completion = Returns | Throws

type_synonym 'p behaviour =
  "lid \<Rightarrow> 'p EventLogEntry \<Rightarrow> 'p EventLog \<Rightarrow> call list \<times> completion"

fun do_call :: "call \<Rightarrow> 'p EventLog \<Rightarrow> 'p EventLog" where
  "do_call (Subscribe l) st = snd (subscribe l st)"
| "do_call (SubscribeType ty l) st = snd (subscribeType ty l st)"
| "do_call (Unsubscribe u) st = call_unsub u st"
| "do_call Close st = close st"

definition do_calls :: "call list \<Rightarrow> 'p EventLog \<Rightarrow> 'p EventLog" where
  "do_calls cs st = foldl (\<lambda>s c. do_call c s) st cs"

text \<open>\<^verbatim>\<open>try { fn(entry) } catch { /* swallow */ }\<close>\<close>

definition notify :: "'p behaviour \<Rightarrow> lid \<Rightarrow> 'p EventLogEntry \<Rightarrow> 'p EventLog \<Rightarrow> 'p EventLog" where
  "notify beh fn entry st =
     (let st1 = st\<lparr>delivered := delivered st @ [(fn, entry)]\<rparr>;
          st2 = do_calls (fst (beh fn entry st)) st1
      in case snd (beh fn entry st) of
           Returns \<Rightarrow> st2
         | Throws \<Rightarrow> st2)"

text \<open>
  \<^verbatim>\<open>for (const fn of set)\<close>. The iterator holds the set and an index into its list; at
  each step it reads the list as it is then, skips an emptied slot, and ends when the
  index reaches the length of the list. A listener may change the set while the loop
  runs, so the loop need not end: the result \<open>None\<close> is a loop that runs forever.
\<close>

datatype setref = Listeners | TypeSet addr

fun deref :: "setref \<Rightarrow> 'p EventLog \<Rightarrow> lid jsset" where
  "deref Listeners st = listeners st"
| "deref (TypeSet a) st = heap st a"

partial_function (option) fanout ::
  "'p behaviour \<Rightarrow> 'p EventLogEntry \<Rightarrow> setref \<Rightarrow> nat \<Rightarrow> 'p EventLog \<Rightarrow> 'p EventLog option" where
  "fanout beh entry r i st =
     (if i < length (deref r st) then
        (case deref r st ! i of
           None \<Rightarrow> fanout beh entry r (Suc i) st
         | Some fn \<Rightarrow> fanout beh entry r (Suc i) (notify beh fn entry st))
      else Some st)"

subsection \<open>\<^verbatim>\<open>append\<close>\<close>

text \<open>
  \<^verbatim>\<open>appendFile(logPath, line, 'utf-8')\<close> writes the line at the end of the file, which it
  creates when it does not exist, or fails; \<open>WriteFailed n\<close> is a failure after the
  first \<open>n\<close> code units of the line have reached the file.
\<close>

datatype write_result = Written | WriteFailed nat

fun content :: "string option \<Rightarrow> string" where
  "content None = []"
| "content (Some raw) = raw"

fun appendFile :: "string option \<Rightarrow> string \<Rightarrow> write_result \<Rightarrow> string option" where
  "appendFile f line Written = Some (content f @ line)"
| "appendFile f line (WriteFailed n) = (if n = 0 then f else Some (content f @ take n line))"

text \<open>
  \<open>now\<close> is the value of \<^verbatim>\<open>Date.now()\<close> and \<open>wr\<close> the outcome of the write. The result
  is \<open>None\<close> when a fan-out loop does not end, and otherwise what the caller gets (the
  entry, or the error thrown) with the state left behind.
\<close>

definition append ::
  "'p stringifier \<Rightarrow> 'p behaviour \<Rightarrow> int \<Rightarrow> write_result \<Rightarrow> string \<Rightarrow> 'p \<Rightarrow> 'p EventLog \<Rightarrow>
   ((error + 'p EventLogEntry) \<times> 'p EventLog) option" where
  "append stringify beh now wr ty pl st =
     (let st1 = st\<lparr>lastSeq := lastSeq st + 1\<rparr>;
          entry = \<lparr>seq = lastSeq st1, ts = now, type = ty, payload = pl\<rparr>
      in case stringify entry of
           None \<Rightarrow> Some (Inl StringifyError, st1)
         | Some json \<Rightarrow>
             (let line = json @ [CHR 0x0A];
                  st2 = st1\<lparr>logFile := appendFile (logFile st1) line wr\<rparr>
              in case wr of
                   WriteFailed n \<Rightarrow> Some (Inl FsError, st2)
                 | Written \<Rightarrow>
                     (case fanout beh entry Listeners 0 st2 of
                        None \<Rightarrow> None
                      | Some st3 \<Rightarrow>
                          (case typeListeners st3 ty of
                             None \<Rightarrow> Some (Inr entry, st3)
                           | Some tSet \<Rightarrow>
                               (case fanout beh entry (TypeSet tSet) 0 st3 of
                                  None \<Rightarrow> None
                                | Some st4 \<Rightarrow> Some (Inr entry, st4))))))"

subsection \<open>\<^verbatim>\<open>createEventLog\<close>\<close>

text \<open>
  \<open>mkdir_ok\<close> is the outcome of \<^verbatim>\<open>mkdir(dirname(logPath), { recursive: true })\<close> and \<open>rr\<close>
  that of the \<^verbatim>\<open>readFile\<close> in \<^verbatim>\<open>recoverLastSeq\<close>.
\<close>

fun file_of :: "read_result \<Rightarrow> string option" where
  "file_of (ReadOk raw) = Some raw"
| "file_of ReadENOENT = None"
| "file_of ReadError = None"

text \<open>The state a log starts in: the file as it was read, the recovered counter, no listener.\<close>

definition new_log :: "string option \<Rightarrow> int \<Rightarrow> 'p EventLog" where
  "new_log f s =
     \<lparr>logFile = f, lastSeq = s, listeners = [], typeListeners = Map.empty,
      heap = (\<lambda>a. []), nextAddr = 0, delivered = []\<rparr>"

definition createEventLog :: "'p parser \<Rightarrow> bool \<Rightarrow> read_result \<Rightarrow> error + 'p EventLog" where
  "createEventLog parse mkdir_ok rr =
     (if \<not> mkdir_ok then Inl FsError
      else (case recoverLastSeq parse rr of
              Inl e \<Rightarrow> Inl e
            | Inr s \<Rightarrow> Inr (new_log (file_of rr) s)))"

text \<open>Reading a file that is there, or is not, with no other error.\<close>

fun readFile :: "string option \<Rightarrow> read_result" where
  "readFile None = ReadENOENT"
| "readFile (Some raw) = ReadOk raw"

subsection \<open>A caller that appends several times\<close>

text \<open>
  One request is the clock, the outcome of the write, the type and the payload of one
  \<^verbatim>\<open>append\<close>. The caller awaits each \<^verbatim>\<open>append\<close>, then reads \<^verbatim>\<open>lastSeq()\<close>, and keeps both.
\<close>

type_synonym 'p request = "int \<times> write_result \<times> string \<times> 'p"

fun appends ::
  "'p stringifier \<Rightarrow> 'p behaviour \<Rightarrow> 'p request list \<Rightarrow> 'p EventLog \<Rightarrow>
   (((error + 'p EventLogEntry) \<times> int) list \<times> 'p EventLog) option" where
  "appends stringify beh [] st = Some ([], st)"
| "appends stringify beh ((now, wr, ty, pl) # reqs) st =
     (case append stringify beh now wr ty pl st of
        None \<Rightarrow> None
      | Some (r, st1) \<Rightarrow>
          (case appends stringify beh reqs st1 of
             None \<Rightarrow> None
           | Some (rs, st2) \<Rightarrow> Some ((r, lastSeq st1) # rs, st2)))"

subsection \<open>A concrete JSON codec for evaluation\<close>

text \<open>
  To evaluate the model on a file, the two JSON functions must be given. The codec
  below is \<^verbatim>\<open>JSON.stringify\<close> on entries with payload \<^verbatim>\<open>null\<close> whose type needs no
  escape (printable ASCII without the double quote and the backslash): it writes
  \<^verbatim>\<open>{"seq":1,"ts":1000,"type":"trade.open","payload":null}\<close>, keys in the order in which
  \<^verbatim>\<open>append\<close> builds the entry. \<open>canon_parse\<close> reads the lines of this form and rejects
  every other string; it agrees with \<^verbatim>\<open>JSON.parse\<close> on the lines \<open>canon_stringify\<close>
  writes and on every string that is not JSON.
\<close>

definition digit_char :: "nat \<Rightarrow> char" where
  "digit_char d = ''0123456789'' ! d"

fun show_nat :: "nat \<Rightarrow> string" where
  "show_nat n = (if n < 10 then [digit_char n] else show_nat (n div 10) @ [digit_char (n mod 10)])"

definition show_int :: "int \<Rightarrow> string" where
  "show_int i = (if i < 0 then CHR ''-'' # show_nat (nat (- i)) else show_nat (nat i))"

definition is_digit :: "char \<Rightarrow> bool" where
  "is_digit c \<longleftrightarrow> 48 \<le> (of_char c :: nat) \<and> (of_char c :: nat) \<le> 57"

definition digit_val :: "char \<Rightarrow> nat" where
  "digit_val c = of_char c - 48"

text \<open>A JSON natural number: digits, with no leading zero but in \<open>0\<close> itself.\<close>

definition read_nat :: "string \<Rightarrow> nat option" where
  "read_nat s =
     (if s \<noteq> [] \<and> list_all is_digit s \<and> (length s = 1 \<or> hd s \<noteq> CHR ''0'')
      then Some (foldl (\<lambda>a c. 10 * a + digit_val c) 0 s)
      else None)"

definition read_int :: "string \<Rightarrow> int option" where
  "read_int s =
     (case s of
        [] \<Rightarrow> None
      | c # r \<Rightarrow>
          if c = CHR ''-''
          then (case read_nat r of
                  None \<Rightarrow> None
                | Some n \<Rightarrow> if n = 0 then None else Some (- int n))
          else map_option int (read_nat s))"

definition is_numch :: "char \<Rightarrow> bool" where
  "is_numch c \<longleftrightarrow> is_digit c \<or> c = CHR ''-''"

definition is_plain :: "char \<Rightarrow> bool" where
  "is_plain c \<longleftrightarrow>
     32 \<le> (of_char c :: nat) \<and> (of_char c :: nat) \<le> 126 \<and> c \<noteq> CHR 0x22 \<and> c \<noteq> CHR 0x5C"

definition strip_prefix :: "string \<Rightarrow> string \<Rightarrow> string option" where
  "strip_prefix p s = (if take (length p) s = p then Some (drop (length p) s) else None)"

definition canon_stringify :: "unit stringifier" where
  "canon_stringify e =
     (if list_all is_plain (type e)
      then Some (''{\"seq\":'' @ show_int (seq e) @ '',\"ts\":'' @ show_int (ts e) @
                 '',\"type\":\"'' @ type e @ ''\",\"payload\":null}'')
      else None)"

definition canon_parse :: "unit parser" where
  "canon_parse s =
     (case strip_prefix ''{\"seq\":'' s of
        None \<Rightarrow> None
      | Some r1 \<Rightarrow>
          (case read_int (takeWhile is_numch r1) of
             None \<Rightarrow> None
           | Some sq \<Rightarrow>
               (case strip_prefix '',\"ts\":'' (dropWhile is_numch r1) of
                  None \<Rightarrow> None
                | Some r2 \<Rightarrow>
                    (case read_int (takeWhile is_numch r2) of
                       None \<Rightarrow> None
                     | Some t \<Rightarrow>
                         (case strip_prefix '',\"type\":\"'' (dropWhile is_numch r2) of
                            None \<Rightarrow> None
                          | Some r3 \<Rightarrow>
                              if dropWhile is_plain r3 = ''\",\"payload\":null}''
                              then Some \<lparr>seq = sq, ts = t, type = takeWhile is_plain r3,
                                         payload = ()\<rparr>
                              else None)))))"

text \<open>
  For \<^verbatim>\<open>read\<close>, the value of an entry, and a parser that knows the lines of the codec and
  the integers, and rejects every other string. The files it is evaluated on hold no
  \<^verbatim>\<open>seq\<close> that needs a conversion, and \<open>no_coercion\<close> is never called on them.
\<close>

definition entry_json :: "unit EventLogEntry \<Rightarrow> json" where
  "entry_json e =
     JObject [(''seq'', JNumber (Finite (of_int (seq e)))),
              (''ts'', JNumber (Finite (of_int (ts e)))),
              (''type'', JString (type e)),
              (''payload'', JNull)]"

definition json_parse :: json_parser where
  "json_parse s =
     (case canon_parse s of
        Some e \<Rightarrow> Some (entry_json e)
      | None \<Rightarrow> (case read_int s of
                   Some n \<Rightarrow> Some (JNumber (Finite (of_int n)))
                 | None \<Rightarrow> None))"

definition no_coercion :: coercion where
  "no_coercion v = None"

text \<open>A behaviour for evaluation: no listener calls the log, and every listener returns.\<close>

definition quiet :: "'p behaviour" where
  "quiet fn entry st = ([], Returns)"

subsection \<open>Well-formed states\<close>

text \<open>
  What holds of the listener sets in every state the operations reach: a \<^verbatim>\<open>Set\<close> holds
  an element once, the sets the map refers to have been created, and two types never
  share a set.
\<close>

definition wf_log :: "'p EventLog \<Rightarrow> bool" where
  "wf_log st \<longleftrightarrow>
     distinct (set_elems (listeners st)) \<and>
     (\<forall>a. distinct (set_elems (heap st a))) \<and>
     (\<forall>t a. typeListeners st t = Some a \<longrightarrow> a < nextAddr st) \<and>
     (\<forall>t t' a. typeListeners st t = Some a \<and> typeListeners st t' = Some a \<longrightarrow> t = t')"

text \<open>The listeners registered for a type, in insertion order.\<close>

definition type_elems :: "'p EventLog \<Rightarrow> string \<Rightarrow> lid list" where
  "type_elems st ty =
     (case typeListeners st ty of
        None \<Rightarrow> []
      | Some tSet \<Rightarrow> set_elems (heap st tSet))"

text \<open>Behaviours for evaluation: one listener throws; one listener calls the log.\<close>

definition thrower :: "lid \<Rightarrow> 'p behaviour" where
  "thrower t fn entry st = ([], if fn = t then Throws else Returns)"

definition caller :: "lid \<Rightarrow> call list \<Rightarrow> 'p behaviour" where
  "caller c calls fn entry st = (if fn = c then calls else [], Returns)"

text \<open>
  A state for evaluation: on a new log, \<^verbatim>\<open>subscribe\<close> of the listeners 1 and 2, then
  \<^verbatim>\<open>subscribeType\<close> for the type \<^verbatim>\<open>"A"\<close> of the listeners 3 and 1.
\<close>

definition log_12_A31 :: "unit EventLog" where
  "log_12_A31 =
     snd (subscribeType ''A'' 1
       (snd (subscribeType ''A'' 3
         (snd (subscribe 2
           (snd (subscribe 1 (new_log None 0))))))))"

text \<open>
  Two more states for evaluation. In the first, \<^verbatim>\<open>subscribe\<close> of the listener 5 on a new
  log has returned the function \<open>UnsubListener 5\<close>, that function has been called, and
  \<^verbatim>\<open>subscribe\<close> has been called with the listener 5 again. In the second,
  \<^verbatim>\<open>subscribeType\<close> for \<^verbatim>\<open>"A"\<close> of the listener 1 on a new log has returned the function
  \<open>UnsubType ''A'' 0 1\<close>, that function has been called, and \<^verbatim>\<open>subscribeType\<close> for \<^verbatim>\<open>"A"\<close>
  has been called with the listener 2.
\<close>

definition resubscribed :: "unit EventLog" where
  "resubscribed =
     snd (subscribe 5 (call_unsub (UnsubListener 5) (snd (subscribe 5 (new_log None 0)))))"

definition retyped :: "unit EventLog" where
  "retyped =
     snd (subscribeType ''A'' 2
       (call_unsub (UnsubType ''A'' 0 1) (snd (subscribeType ''A'' 1 (new_log None 0)))))"

text \<open>
  A third state for evaluation: \<^verbatim>\<open>subscribeType\<close> for \<^verbatim>\<open>"A"\<close> of the listener 1 on a new log
  has returned the function \<open>UnsubType ''A'' 0 1\<close>, then \<^verbatim>\<open>close\<close> has been called, and
  \<^verbatim>\<open>subscribeType\<close> for \<^verbatim>\<open>"A"\<close> has been called with the listener 2.
\<close>

definition closed_retyped :: "unit EventLog" where
  "closed_retyped =
     snd (subscribeType ''A'' 2 (close (snd (subscribeType ''A'' 1 (new_log None 0)))))"

text \<open>
  A behaviour in which a listener, while it is notified of the entry, calls nothing but
  unsubscribe functions it has got for itself: the one from \<^verbatim>\<open>subscribe\<close>, and those from
  \<^verbatim>\<open>subscribeType\<close> that close over a set which its type still has in the state \<open>st\<close>.
\<close>

definition unsubscribes_itself_only :: "'p behaviour \<Rightarrow> 'p EventLogEntry \<Rightarrow> 'p EventLog \<Rightarrow> bool" where
  "unsubscribes_itself_only beh entry st \<longleftrightarrow>
     (\<forall>l s c. c \<in> set (fst (beh l entry s)) \<longrightarrow>
        c = Unsubscribe (UnsubListener l) \<or>
        (\<exists>t tSet. typeListeners st t = Some tSet \<and> c = Unsubscribe (UnsubType t tSet l)))"

text \<open>
  A behaviour in which a listener, while it is notified of the entry, calls nothing but
  its own unsubscribe functions, as above, and \<^verbatim>\<open>subscribe\<close> and \<^verbatim>\<open>subscribeType\<close>, with any
  listener and any type.
\<close>

definition unsubscribes_itself_or_subscribes ::
  "'p behaviour \<Rightarrow> 'p EventLogEntry \<Rightarrow> 'p EventLog \<Rightarrow> bool" where
  "unsubscribes_itself_or_subscribes beh entry st \<longleftrightarrow>
     (\<forall>l s c. c \<in> set (fst (beh l entry s)) \<longrightarrow>
        c = Unsubscribe (UnsubListener l) \<or>
        (\<exists>t tSet. typeListeners st t = Some tSet \<and> c = Unsubscribe (UnsubType t tSet l)) \<or>
        (\<exists>x. c = Subscribe x) \<or> (\<exists>t x. c = SubscribeType t x))"

text \<open>
  A behaviour for evaluation: every listener, when it is notified, calls its own two
  unsubscribe functions, the one for the global set and the one for the set at address
  0 and the type of the entry.
\<close>

definition leaver :: "'p behaviour" where
  "leaver fn entry st =
     ([Unsubscribe (UnsubListener fn), Unsubscribe (UnsubType (type entry) 0 fn)], Returns)"

text \<open>
  A behaviour for evaluation: the listener \<open>n\<close>, when it is notified, calls \<^verbatim>\<open>subscribe\<close>
  with a listener that has not been registered before, the listener \<open>n + 1\<close>.
\<close>

definition spawner :: "'p behaviour" where
  "spawner fn entry st = ([Subscribe (Suc fn)], Returns)"

subsection \<open>What a fan-out keeps\<close>

text \<open>
  A change of a set that leaves every slot as it is, but the slots of the listener \<open>l\<close>,
  and may add slots at the end: what the calls of the listener \<open>l\<close> do to a set when it
  unsubscribes itself and subscribes listeners.
\<close>

definition keeps_slots :: "lid \<Rightarrow> lid jsset \<Rightarrow> lid jsset \<Rightarrow> bool" where
  "keeps_slots l s s' \<longleftrightarrow>
     length s \<le> length s' \<and> (\<forall>j < length s. s ! j \<noteq> Some l \<longrightarrow> s' ! j = s ! j)"

text \<open>
  What holds during the fan-out of an entry whose type \<open>ty\<close> had the set \<open>a\<close>, with the
  listeners \<open>T\<close> in it, when the fan-out began after \<open>n\<close> calls of listeners: the sets of
  the map have been created, and so has \<open>a\<close>; no other type has the set \<open>a\<close>; the type has
  it still, or it is empty; and each listener of \<open>T\<close> is in the set \<open>a\<close> still, or has
  been called with the entry.
\<close>

definition fanout_inv ::
  "string \<Rightarrow> addr \<Rightarrow> lid set \<Rightarrow> 'p EventLogEntry \<Rightarrow> nat \<Rightarrow> 'p EventLog \<Rightarrow> bool" where
  "fanout_inv ty a T entry n st \<longleftrightarrow>
     (\<forall>t b. typeListeners st t = Some b \<longrightarrow> b < nextAddr st) \<and>
     a < nextAddr st \<and>
     (\<forall>t. typeListeners st t = Some a \<longrightarrow> t = ty) \<and>
     (typeListeners st ty = Some a \<or> set_elems (heap st a) = []) \<and>
     n \<le> length (delivered st) \<and>
     (\<forall>x \<in> T. Some x \<in> set (heap st a) \<or> (x, entry) \<in> set (drop n (delivered st)))"

subsection \<open>What the model asks of the JSON functions\<close>

text \<open>
  \<^verbatim>\<open>JSON.stringify\<close> of an object writes one line: a text that starts with \<^verbatim>\<open>{\<close>, ends
  with \<^verbatim>\<open>}\<close> and holds no line feed (it escapes them). \<^verbatim>\<open>JSON.parse\<close> of that text gives
  back the number \<^verbatim>\<open>seq\<close> of the entry.
\<close>

definition codec_ok :: "'p parser \<Rightarrow> 'p stringifier \<Rightarrow> bool" where
  "codec_ok parse stringify \<longleftrightarrow>
     (\<forall>e s. stringify e = Some s \<longrightarrow>
        CHR 0x0A \<notin> set s \<and> s \<noteq> [] \<and> \<not> is_ws (hd s) \<and> \<not> is_ws (last s) \<and>
        (\<exists>e'. parse s = Some e' \<and> seq e' = seq e))"

section \<open>Properties\<close>

lemma split_nl_nonempty: "split_nl s \<noteq> []"
  by (cases s) (auto split: list.splits)

subsection \<open>The concrete codec\<close>

declare show_nat.simps [simp del]



lemma digit_char_cases:
  assumes "d < 10"
  shows "is_digit (digit_char d) \<and> digit_val (digit_char d) = d \<and> (digit_char d = CHR ''0'' \<longrightarrow> d = 0)"
proof -
  from assms have "d = 0 \<or> d = 1 \<or> d = 2 \<or> d = 3 \<or> d = 4 \<or> d = 5 \<or> d = 6 \<or> d = 7 \<or> d = 8 \<or> d = 9" by arith
  then show ?thesis
    by (elim disjE) (simp_all add: digit_char_def is_digit_def digit_val_def)
qed

lemma show_nat_small: "n < 10 \<Longrightarrow> show_nat n = [digit_char n]"
  by (subst show_nat.simps) simp

lemma show_nat_big: "\<not> n < 10 \<Longrightarrow> show_nat n = show_nat (n div 10) @ [digit_char (n mod 10)]"
  by (subst show_nat.simps) simp

lemma show_nat_digits: "list_all is_digit (show_nat n)"
proof (induction n rule: show_nat.induct)
  case (1 n)
  show ?case
  proof (cases "n < 10")
    case True
    then show ?thesis by (simp add: show_nat_small digit_char_cases)
  next
    case False
    with 1 have "list_all is_digit (show_nat (n div 10))" by simp
    moreover have "is_digit (digit_char (n mod 10))" by (simp add: digit_char_cases)
    ultimately show ?thesis using False by (simp add: show_nat_big)
  qed
qed

lemma show_nat_nonempty: "show_nat n \<noteq> []"
  by (cases "n < 10") (simp_all add: show_nat_small show_nat_big)

lemma show_nat_value: "foldl (\<lambda>a c. 10 * a + digit_val c) 0 (show_nat n) = n"
proof (induction n rule: show_nat.induct)
  case (1 n)
  show ?case
  proof (cases "n < 10")
    case True
    then show ?thesis by (simp add: show_nat_small digit_char_cases)
  next
    case False
    with 1 have "foldl (\<lambda>a c. 10 * a + digit_val c) 0 (show_nat (n div 10)) = n div 10" by simp
    moreover have "digit_val (digit_char (n mod 10)) = n mod 10" by (simp add: digit_char_cases)
    ultimately show ?thesis using False by (simp add: show_nat_big)
  qed
qed

lemma show_nat_leading: "n \<noteq> 0 \<Longrightarrow> hd (show_nat n) \<noteq> CHR ''0''"
proof (induction n rule: show_nat.induct)
  case (1 n)
  show ?case
  proof (cases "n < 10")
    case True
    with 1(2) show ?thesis using digit_char_cases [of n] by (simp add: show_nat_small)
  next
    case False
    then have "n div 10 \<noteq> 0" by simp
    with 1 False have "hd (show_nat (n div 10)) \<noteq> CHR ''0''" by simp
    then show ?thesis using False show_nat_nonempty [of "n div 10"]
      by (simp add: show_nat_big)
  qed
qed

lemma read_nat_show_nat: "read_nat (show_nat n) = Some n"
proof (cases "n = 0")
  case True
  then show ?thesis by (simp add: read_nat_def show_nat_small digit_char_def is_digit_def digit_val_def)
next
  case False
  then show ?thesis
    by (simp add: read_nat_def show_nat_nonempty show_nat_digits show_nat_value show_nat_leading)
qed

lemma hd_show_nat_not_minus: "hd (show_nat n) \<noteq> CHR ''-''"
proof -
  have "is_digit (hd (show_nat n))"
    using show_nat_digits [of n] show_nat_nonempty [of n]
    by (cases "show_nat n") auto
  then show ?thesis by (auto simp: is_digit_def)
qed

lemma read_int_show_int: "read_int (show_int i) = Some i"
proof (cases "i < 0")
  case True
  then show ?thesis by (simp add: read_int_def show_int_def read_nat_show_nat)
next
  case False
  obtain c r where cr: "show_nat (nat i) = c # r"
    using show_nat_nonempty [of "nat i"] by (cases "show_nat (nat i)") auto
  with hd_show_nat_not_minus [of "nat i"] have "c \<noteq> CHR ''-''" by simp
  moreover have "read_nat (c # r) = Some (nat i)" using read_nat_show_nat [of "nat i"] cr by simp
  ultimately show ?thesis using False cr by (simp add: read_int_def show_int_def)
qed

lemma show_int_numch: "list_all is_numch (show_int i)"
  using show_nat_digits
  by (auto simp: show_int_def is_numch_def list_all_iff)

lemma takeWhile_stop: "list_all P xs \<Longrightarrow> \<not> P c \<Longrightarrow> takeWhile P (xs @ c # r) = xs"
  by (induction xs) auto

lemma dropWhile_stop: "list_all P xs \<Longrightarrow> \<not> P c \<Longrightarrow> dropWhile P (xs @ c # r) = c # r"
  by (induction xs) auto

lemma strip_prefix_append: "strip_prefix p (p @ r) = Some r"
  by (simp add: strip_prefix_def)

lemma canon_roundtrip:
  assumes "canon_stringify e = Some s"
  shows "canon_parse s = Some e"
proof -
  from assms have plain: "list_all is_plain (type e)"
    and s: "s = ''{\"seq\":'' @ (show_int (seq e) @ CHR '','' # (''\"ts\":'' @ (show_int (ts e) @ CHR '','' #
                 (''\"type\":\"'' @ (type e @ CHR 0x22 # '',\"payload\":null}'')))))"
    by (auto simp: canon_stringify_def split: if_splits)
  have comma: "\<not> is_numch CHR '',''" by (simp add: is_numch_def is_digit_def)
  have quote: "\<not> is_plain (CHR 0x22)" by (simp add: is_plain_def)
  note tw = takeWhile_stop [OF show_int_numch comma] dropWhile_stop [OF show_int_numch comma]
    takeWhile_stop [OF plain quote] dropWhile_stop [OF plain quote]
  have p1: "strip_prefix ''{\"seq\":'' s = Some (show_int (seq e) @ CHR '','' # (''\"ts\":'' @ (show_int (ts e) @ CHR '','' #
                 (''\"type\":\"'' @ (type e @ CHR 0x22 # '',\"payload\":null}'')))))"
    unfolding s by (rule strip_prefix_append)
  have p2: "strip_prefix '',\"ts\":'' (CHR '','' # (''\"ts\":'' @ (show_int (ts e) @ CHR '','' #
                 (''\"type\":\"'' @ (type e @ CHR 0x22 # '',\"payload\":null}''))))) = Some (show_int (ts e) @ CHR '','' #
                 (''\"type\":\"'' @ (type e @ CHR 0x22 # '',\"payload\":null}'')))"
    using strip_prefix_append [of "'',\"ts\":''"] by simp
  have p3: "strip_prefix '',\"type\":\"'' (CHR '','' #
                 (''\"type\":\"'' @ (type e @ CHR 0x22 # '',\"payload\":null}''))) = Some (type e @ CHR 0x22 # '',\"payload\":null}'')"
    using strip_prefix_append [of "'',\"type\":\"''"] by simp
  show ?thesis
    unfolding canon_parse_def p1 option.case tw read_int_show_int p2 p3
    by simp
qed

lemma canon_shape:
  assumes "canon_stringify e = Some s"
  shows "list_all is_plain (type e)"
    and "s = ''{\"seq\":'' @ show_int (seq e) @ '',\"ts\":'' @ show_int (ts e) @
                 '',\"type\":\"'' @ type e @ ''\",\"payload\":null}''"
proof -
  show p: "list_all is_plain (type e)"
    using assms by (cases "list_all is_plain (type e)") (simp_all add: canon_stringify_def)
  from assms p have "Some (''{\"seq\":'' @ show_int (seq e) @ '',\"ts\":'' @ show_int (ts e) @
                 '',\"type\":\"'' @ type e @ ''\",\"payload\":null}'') = Some s"
    unfolding canon_stringify_def by (simp only: if_True)
  then show "s = ''{\"seq\":'' @ show_int (seq e) @ '',\"ts\":'' @ show_int (ts e) @
                 '',\"type\":\"'' @ type e @ ''\",\"payload\":null}''"
    by (simp only: option.inject)
qed

lemma show_int_no_ws: "c \<in> set (show_int i) \<Longrightarrow> \<not> is_ws c"
  using show_int_numch [of i] by (auto simp: list_all_iff is_numch_def is_digit_def is_ws_def)

lemma not_plain_nl: "\<not> is_plain (CHR 0x0A)"
  by (simp add: is_plain_def)

lemma plain_no_nl: "list_all is_plain t \<Longrightarrow> CHR 0x0A \<notin> set t"
  using not_plain_nl by (auto simp: list_all_iff)

lemma canon_no_newline:
  assumes "canon_stringify e = Some s"
  shows "CHR 0x0A \<notin> set s"
proof -
  have d: "CHR 0x0A \<notin> set (show_int i)" for i
    using show_int_no_ws [of "CHR 0x0A" i] by (auto simp: is_ws_def)
  show ?thesis
    unfolding canon_shape(2) [OF assms]
    using d [of "seq e"] d [of "ts e"] plain_no_nl [OF canon_shape(1) [OF assms]] by simp
qed

lemma canon_codec_ok: "codec_ok canon_parse canon_stringify"
proof -
  have "CHR 0x0A \<notin> set s \<and> s \<noteq> [] \<and> \<not> is_ws (hd s) \<and> \<not> is_ws (last s) \<and>
        (\<exists>e'. canon_parse s = Some e' \<and> seq e' = seq e)"
    if h: "canon_stringify e = Some s" for e s
  proof -
    have "s \<noteq> []" "hd s = CHR ''{''" "last s = CHR ''}''"
      unfolding canon_shape(2) [OF h] by simp_all
    moreover have "\<not> is_ws CHR ''{''" "\<not> is_ws CHR ''}''" by (simp_all add: is_ws_def)
    ultimately show ?thesis
      using canon_no_newline [OF h] canon_roundtrip [OF h] by simp
  qed
  then show ?thesis unfolding codec_ok_def by blast
qed


lemma canon_stringify_A1:
  "canon_stringify \<lparr>seq = 1, ts = 1000, type = ''A'', payload = ()\<rparr> =
     Some ''{\"seq\":1,\"ts\":1000,\"type\":\"A\",\"payload\":null}''"
  by (simp add: canon_stringify_def show_int_def show_nat_small is_plain_def digit_char_def
      show_nat_big)

subsection \<open>A failed write\<close>

text \<open>
  Claim C5. When \<^verbatim>\<open>JSON.stringify\<close> has produced the line and the write of \<^verbatim>\<open>appendFile\<close>
  fails, \<^verbatim>\<open>append\<close> ends with that error; the counter that \<^verbatim>\<open>lastSeq()\<close> returns is one
  more than before the call, no listener has been called, and the listener sets are
  what they were.
\<close>

theorem append_write_failure:
  assumes "stringify \<lparr>seq = lastSeq st + 1, ts = now, type = ty, payload = pl\<rparr> = Some json"
  shows "\<exists>st'. append stringify beh now (WriteFailed n) ty pl st = Some (Inl FsError, st') \<and>
           lastSeq st' = lastSeq st + 1 \<and>
           delivered st' = delivered st \<and>
           listeners st' = listeners st \<and> typeListeners st' = typeListeners st \<and>
           heap st' = heap st"
  using assms by (simp add: append_def Let_def)

theorem append_write_failure_witness:
  "canon_stringify \<lparr>seq = lastSeq (snd (subscribe 7 (new_log None 0 :: unit EventLog))) + 1,
      ts = 1000, type = ''A'', payload = ()\<rparr> =
     Some ''{\"seq\":1,\"ts\":1000,\"type\":\"A\",\"payload\":null}'' \<and>
   (\<exists>st'. append canon_stringify quiet 1000 (WriteFailed 5) ''A'' ()
            (snd (subscribe 7 (new_log None 0))) = Some (Inl FsError, st') \<and>
          lastSeq st' = 1 \<and> delivered st' = [] \<and> listeners st' = [Some 7] \<and>
          typeListeners st' = Map.empty \<and> heap st' = (\<lambda>a. []))"
proof -
  have s: "lastSeq (snd (subscribe 7 (new_log None 0 :: unit EventLog))) = 0"
    by (simp add: subscribe_def new_log_def)
  have h: "canon_stringify \<lparr>seq = lastSeq (snd (subscribe 7 (new_log None 0 :: unit EventLog))) + 1,
      ts = 1000, type = ''A'', payload = ()\<rparr> =
     Some ''{\"seq\":1,\"ts\":1000,\"type\":\"A\",\"payload\":null}''"
    unfolding s using canon_stringify_A1 by simp
  from append_write_failure [where stringify = canon_stringify and beh = quiet and n = 5
      and st = "snd (subscribe 7 (new_log None 0))" and now = 1000 and ty = "''A''" and pl = "()",
      OF h]
  show ?thesis using h by (simp add: subscribe_def new_log_def set_add_def)
qed

lemma set_elems_Nil [simp]: "set_elems [] = []"
  by (simp add: set_elems_def)

lemma set_elems_Cons_None [simp]: "set_elems (None # s) = set_elems s"
  by (simp add: set_elems_def)

lemma set_elems_Cons_Some [simp]: "set_elems (Some x # s) = x # set_elems s"
  by (simp add: set_elems_def)

lemma set_elems_append [simp]: "set_elems (s @ t) = set_elems s @ set_elems t"
  by (simp add: set_elems_def List.map_filter_def)

lemma set_elems_set: "set (set_elems s) = {x. Some x \<in> set s}"
proof (induction s)
  case Nil
  show ?case by simp
next
  case (Cons a s)
  then show ?case by (cases a) auto
qed

lemma set_elems_empty_iff: "set_elems s = [] \<longleftrightarrow> (\<forall>e \<in> set s. e = None)"
proof (induction s)
  case Nil
  show ?case by simp
next
  case (Cons a s)
  then show ?case by (cases a) simp_all
qed

lemma set_elems_clear [simp]: "set_elems (set_clear s) = []"
  by (simp add: set_elems_empty_iff set_clear_def)

lemma fanout_all_empty:
  assumes "\<forall>j. i \<le> j \<and> j < length (deref r st) \<longrightarrow> deref r st ! j = None"
  shows "fanout beh entry r i st = Some st"
  using assms
proof (induction "length (deref r st) - i" arbitrary: i)
  case 0
  then show ?case by (subst fanout.simps) simp
next
  case (Suc n)
  then have lt: "i < length (deref r st)" by simp
  with Suc.prems have none: "deref r st ! i = None" by simp
  have "fanout beh entry r (Suc i) st = Some st"
  proof (rule Suc.hyps(1))
    show "n = length (deref r st) - Suc i" using Suc.hyps(2) by simp
    show "\<forall>j. Suc i \<le> j \<and> j < length (deref r st) \<longrightarrow> deref r st ! j = None"
      using Suc.prems by simp
  qed
  with lt none show ?case by (subst fanout.simps) simp
qed

lemma fanout_no_elems:
  assumes "set_elems (deref r st) = []"
  shows "fanout beh entry r i st = Some st"
proof (rule fanout_all_empty)
  show "\<forall>j. i \<le> j \<and> j < length (deref r st) \<longrightarrow> deref r st ! j = None"
    using assms by (simp add: set_elems_empty_iff)
qed

text \<open>What one append does to the counter and the file, whatever the listeners do.\<close>

lemma call_unsub_frame:
  "lastSeq (call_unsub u st) = lastSeq st \<and> logFile (call_unsub u st) = logFile st \<and>
   delivered (call_unsub u st) = delivered st"
  by (cases u) (simp_all add: Let_def)

lemma subscribeType_frame:
  "lastSeq (snd (subscribeType ty l st)) = lastSeq st \<and>
   logFile (snd (subscribeType ty l st)) = logFile st \<and>
   delivered (snd (subscribeType ty l st)) = delivered st"
  by (cases "typeListeners st ty") (simp_all add: subscribeType_def Let_def)

lemma do_call_frame:
  "lastSeq (do_call c st) = lastSeq st \<and> logFile (do_call c st) = logFile st \<and>
   delivered (do_call c st) = delivered st"
  by (cases c) (simp_all add: subscribe_def subscribeType_frame call_unsub_frame close_def)

lemma do_calls_frame:
  "lastSeq (do_calls cs st) = lastSeq st \<and> logFile (do_calls cs st) = logFile st \<and>
   delivered (do_calls cs st) = delivered st"
  unfolding do_calls_def
  by (induction cs arbitrary: st) (simp_all add: do_call_frame)

lemma notify_frame:
  "lastSeq (notify beh fn entry st) = lastSeq st \<and> logFile (notify beh fn entry st) = logFile st \<and>
   delivered (notify beh fn entry st) = delivered st @ [(fn, entry)]"
  by (cases "snd (beh fn entry st)") (simp_all add: notify_def Let_def do_calls_frame)

lemma fanout_frame:
  assumes "fanout beh entry r i st = Some st'"
  shows "lastSeq st' = lastSeq st \<and> logFile st' = logFile st"
  using assms
proof (induction rule: fanout.raw_induct [rotated 1, consumes 1])
  case (1 fanout' beh entry r i st st')
  show ?case
  proof (cases "i < length (deref r st)")
    case False
    with 1(2) show ?thesis by simp
  next
    case lt: True
    show ?thesis
    proof (cases "deref r st ! i")
      case None
      with lt 1(2) have "fanout' beh entry r (Suc i) st = Some st'" by simp
      then show ?thesis by (rule 1(1))
    next
      case (Some fn)
      with lt 1(2) have "fanout' beh entry r (Suc i) (notify beh fn entry st) = Some st'" by simp
      then have "lastSeq st' = lastSeq (notify beh fn entry st) \<and>
                 logFile st' = logFile (notify beh fn entry st)" by (rule 1(1))
      then show ?thesis by (simp add: notify_frame)
    qed
  qed
qed

lemma append_effect:
  assumes "append stringify beh now wr ty pl st = Some (r, st')"
  shows "lastSeq st' = lastSeq st + 1"
    and "r = Inr e \<Longrightarrow> e = \<lparr>seq = lastSeq st + 1, ts = now, type = ty, payload = pl\<rparr> \<and>
          (\<exists>json. stringify e = Some json \<and> logFile st' = Some (content (logFile st) @ json @ [CHR 0x0A]))"
proof -
  let ?e = "\<lparr>seq = lastSeq st + 1, ts = now, type = ty, payload = pl\<rparr>"
  let ?st1 = "st\<lparr>lastSeq := lastSeq st + 1\<rparr>"
  show "lastSeq st' = lastSeq st + 1"
  proof (cases "stringify ?e")
    case None
    with assms show ?thesis by (auto simp: append_def Let_def)
  next
    case (Some json)
    let ?st2 = "?st1\<lparr>logFile := appendFile (logFile ?st1) (json @ [CHR 0x0A]) wr\<rparr>"
    show ?thesis
    proof (cases wr)
      case (WriteFailed n)
      with Some assms show ?thesis by (auto simp: append_def Let_def)
    next
      case Written
      with Some assms obtain st3 where f3: "fanout beh ?e Listeners 0 ?st2 = Some st3"
        by (auto simp: append_def Let_def split: option.splits)
      from fanout_frame [OF f3] have l3: "lastSeq st3 = lastSeq st + 1" by simp
      show ?thesis
      proof (cases "typeListeners st3 ty")
        case None
        with Some Written f3 assms have "st' = st3" by (auto simp: append_def Let_def)
        with l3 show ?thesis by simp
      next
        case (Some tSet)
        with \<open>stringify ?e = Some json\<close> Written f3 assms
        have "fanout beh ?e (TypeSet tSet) 0 st3 = Some st'"
          by (auto simp: append_def Let_def split: option.splits)
        from fanout_frame [OF this] l3 show ?thesis by simp
      qed
    qed
  qed
  show "e = ?e \<and> (\<exists>json. stringify e = Some json \<and> logFile st' = Some (content (logFile st) @ json @ [CHR 0x0A]))"
    if r: "r = Inr e"
  proof (cases "stringify ?e")
    case None
    with assms r show ?thesis by (auto simp: append_def Let_def)
  next
    case (Some json)
    let ?st2 = "?st1\<lparr>logFile := appendFile (logFile ?st1) (json @ [CHR 0x0A]) wr\<rparr>"
    show ?thesis
    proof (cases wr)
      case (WriteFailed n)
      with Some assms r show ?thesis by (auto simp: append_def Let_def)
    next
      case Written
      with Some assms obtain st3 where f3: "fanout beh ?e Listeners 0 ?st2 = Some st3"
        by (auto simp: append_def Let_def split: option.splits)
      from fanout_frame [OF f3] Written
      have l3: "logFile st3 = Some (content (logFile st) @ json @ [CHR 0x0A])" by simp
      show ?thesis
      proof (cases "typeListeners st3 ty")
        case None
        with Some Written f3 assms r have "st' = st3" "e = ?e" by (auto simp: append_def Let_def)
        with l3 Some show ?thesis by simp
      next
        case tl: (Some tSet)
        with Some Written f3 assms r
        have "fanout beh ?e (TypeSet tSet) 0 st3 = Some st'" "e = ?e"
          by (auto simp: append_def Let_def split: option.splits)
        with fanout_frame [of beh ?e "TypeSet tSet" 0 st3 st'] l3 Some show ?thesis by simp
      qed
    qed
  qed
qed

subsection \<open>Strings\<close>

lemma is_ws_nl [simp]: "is_ws (CHR 0x0A)"
  by (simp add: is_ws_def)

lemma trimEnd_snoc: "trimEnd (xs @ [c]) = (if is_ws c then trimEnd xs else xs @ [c])"
  by (simp add: trimEnd_def)

lemma trimEnd_Nil [simp]: "trimEnd [] = []"
  by (simp add: trimEnd_def)

lemma trim_Nil [simp]: "trim [] = []"
  by (simp add: trim_def trimStart_def)

lemma trim_snoc_ws:
  assumes "is_ws c"
  shows "trim (xs @ [c]) = trim xs"
proof (cases "\<forall>x \<in> set xs. is_ws x")
  case True
  with assms have d: "dropWhile is_ws (xs @ [c]) = []" "dropWhile is_ws xs = []"
    by simp_all
  show ?thesis unfolding trim_def trimStart_def d by simp
next
  case False
  then obtain x where "x \<in> set xs" "\<not> is_ws x" by blast
  then have d: "dropWhile is_ws (xs @ [c]) = dropWhile is_ws xs @ [c]"
    by (rule dropWhile_append1)
  show ?thesis unfolding trim_def trimStart_def trimEnd_def d using assms by simp
qed

lemma trim_empty_iff: "trim s = [] \<longleftrightarrow> (\<forall>c \<in> set s. is_ws c)"
proof (induction s rule: rev_induct)
  case Nil
  show ?case by simp
next
  case (snoc c s)
  show ?case
  proof (cases "is_ws c")
    case True
    with snoc show ?thesis by (simp add: trim_snoc_ws)
  next
    case False
    then have "dropWhile is_ws (s @ [c]) \<noteq> []" by simp
    moreover have "last (dropWhile is_ws (s @ [c])) = c"
      using False by (induction s) auto
    ultimately have "trim (s @ [c]) \<noteq> []"
      using False
      by (cases "dropWhile is_ws (s @ [c])" rule: rev_cases) (auto simp: trim_def trimStart_def trimEnd_def)
    with False show ?thesis by auto
  qed
qed

lemma trim_id:
  assumes "s \<noteq> []" "\<not> is_ws (hd s)" "\<not> is_ws (last s)"
  shows "trim s = s"
proof -
  from assms(1,2) have "dropWhile is_ws s = s" by (cases s) auto
  moreover from assms(1,3) have "dropWhile is_ws (rev s) = rev s"
    by (cases s rule: rev_cases) auto
  ultimately show ?thesis by (simp add: trim_def trimStart_def trimEnd_def)
qed

lemma split_nl_Cons_other:
  "c \<noteq> CHR 0x0A \<Longrightarrow> split_nl (c # cs) = (c # hd (split_nl cs)) # tl (split_nl cs)"
  using split_nl_nonempty [of cs] by (cases "split_nl cs") simp_all

lemma split_nl_snoc_nl: "split_nl (xs @ [CHR 0x0A]) = split_nl xs @ [[]]"
proof (induction xs)
  case Nil
  show ?case by simp
next
  case (Cons a xs)
  show ?case
  proof (cases "a = CHR 0x0A")
    case True
    with Cons show ?thesis by simp
  next
    case False
    with Cons show ?thesis using split_nl_nonempty [of xs]
      by (cases "split_nl xs") (simp_all add: split_nl_Cons_other del: split_nl.simps)
  qed
qed

lemma split_nl_snoc_other:
  "c \<noteq> CHR 0x0A \<Longrightarrow> split_nl (xs @ [c]) = butlast (split_nl xs) @ [last (split_nl xs) @ [c]]"
proof (induction xs)
  case Nil
  then show ?case by simp
next
  case (Cons a xs)
  show ?case
  proof (cases "a = CHR 0x0A")
    case True
    with Cons show ?thesis by (simp add: split_nl_nonempty)
  next
    case False
    obtain l ls where sp: "split_nl xs = l # ls"
      using split_nl_nonempty [of xs] by (cases "split_nl xs") auto
    have a1: "split_nl (a # xs) = (a # l) # ls" using False sp by simp
    have a2: "split_nl ((a # xs) @ [c]) = (a # hd (split_nl (xs @ [c]))) # tl (split_nl (xs @ [c]))"
      using False split_nl_Cons_other [of a "xs @ [c]"] by simp
    show ?thesis
    proof (cases ls)
      case Nil
      with sp Cons.IH [OF Cons.prems] show ?thesis unfolding a1 a2 by simp
    next
      case (Cons l' ls')
      with sp Cons.IH [OF Cons.prems] show ?thesis unfolding a1 a2 by simp
    qed
  qed
qed

lemma split_nl_append_nl: "split_nl (a @ CHR 0x0A # b) = split_nl a @ split_nl b"
proof (induction a)
  case Nil
  show ?case by simp
next
  case (Cons c a)
  obtain l ls where sp: "split_nl a = l # ls"
    using split_nl_nonempty [of a] by (cases "split_nl a") auto
  with Cons show ?case by simp
qed

lemma split_nl_single: "CHR 0x0A \<notin> set s \<Longrightarrow> split_nl s = [s]"
  by (induction s) auto

lemma recover_loop_scan:
  assumes "parse [] = None" "n \<le> length lines"
  shows "recover_loop parse lines n = first_decoded (\<lambda>l. parse (trim l)) (rev (take n lines))"
  using assms(2)
proof (induction n)
  case 0
  show ?case by simp
next
  case (Suc n)
  then have n: "n < length lines" by simp
  then have t: "rev (take (Suc n) lines) = lines ! n # rev (take n lines)"
    by (simp add: take_Suc_conv_app_nth)
  from Suc have IH: "recover_loop parse lines n = first_decoded (\<lambda>l. parse (trim l)) (rev (take n lines))"
    by simp
  show ?case
  proof (cases "trim (lines ! n) = []")
    case True
    then show ?thesis using IH assms(1) by (simp add: t)
  next
    case False
    then have "lines ! n \<noteq> []" by auto
    with False show ?thesis using IH by (simp add: t Let_def split: option.splits)
  qed
qed

lemma first_decoded_snoc_ws:
  assumes "parse [] = None" "is_ws c"
  shows "first_decoded (\<lambda>l. parse (trim l)) (rev (split_nl (xs @ [c]))) =
         first_decoded (\<lambda>l. parse (trim l)) (rev (split_nl xs))"
proof (cases "c = CHR 0x0A")
  case True
  then show ?thesis by (simp add: split_nl_snoc_nl)
next
  case False
  obtain ls l where sp: "split_nl xs = ls @ [l]"
    using split_nl_nonempty [of xs] by (cases "split_nl xs" rule: rev_cases) auto
  have tr: "trim (l @ [c]) = trim l" using assms(2) by (rule trim_snoc_ws)
  show ?thesis
  proof (cases "l = []")
    case True
    with sp False assms tr show ?thesis
      by (simp add: split_nl_snoc_other)
  next
    case False
    with sp \<open>c \<noteq> CHR 0x0A\<close> tr show ?thesis
      by (simp add: split_nl_snoc_other)
  qed
qed

lemma first_decoded_trimEnd:
  assumes "parse [] = None"
  shows "first_decoded (\<lambda>l. parse (trim l)) (rev (split_nl (trimEnd raw))) =
         first_decoded (\<lambda>l. parse (trim l)) (rev (split_nl raw))"
proof (induction raw rule: rev_induct)
  case Nil
  show ?case by simp
next
  case (snoc c raw)
  show ?case
  proof (cases "is_ws c")
    case True
    with snoc first_decoded_snoc_ws [where parse = parse and c = c and xs = raw] assms show ?thesis
      by (simp add: trimEnd_snoc)
  next
    case False
    then show ?thesis by (simp add: trimEnd_snoc)
  qed
qed

lemma trimEnd_empty_of_trim: "trim raw = [] \<Longrightarrow> trimEnd raw = []"
  by (simp add: trim_empty_iff trimEnd_def)

lemma recoverLastSeq_spec:
  assumes "parse [] = None"
  shows "recoverLastSeq parse (readFile f) = Inr (spec_recover (\<lambda>l. parse (trim l)) f)"
proof (cases f)
  case None
  then show ?thesis by (simp add: recoverLastSeq_def spec_recover_def)
next
  case (Some raw)
  have loop: "recover_loop parse (split_nl (trimEnd raw)) (length (split_nl (trimEnd raw))) =
        first_decoded (\<lambda>l. parse (trim l)) (rev (split_nl raw))"
    using recover_loop_scan [where parse = parse and n = "length (split_nl (trimEnd raw))"
        and lines = "split_nl (trimEnd raw)"]
      first_decoded_trimEnd [where parse = parse and raw = raw] assms by simp
  show ?thesis
  proof (cases "trim raw = []")
    case True
    have "first_decoded (\<lambda>l. parse (trim l)) (rev (split_nl raw)) = 0"
      using first_decoded_trimEnd [where parse = parse and raw = raw] assms
        trimEnd_empty_of_trim [OF True] by simp
    with True Some show ?thesis by (simp add: recoverLastSeq_def spec_recover_def)
  next
    case False
    with Some loop show ?thesis by (simp add: recoverLastSeq_def spec_recover_def Let_def)
  qed
qed

lemma first_decoded_skip:
  assumes "\<forall>l \<in> set ls. l = [] \<or> decode l = None"
  shows "first_decoded decode (ls @ ms) = first_decoded decode ms"
  using assms by (induction ls) auto

lemma spec_recover_tail:
  assumes "parse [] = None" "pre = [] \<or> last pre = CHR 0x0A" "CHR 0x0A \<notin> set good"
    "parse (trim good) = Some e" "\<forall>l \<in> set (split_nl junk). parse (trim l) = None"
  shows "spec_recover (\<lambda>l. parse (trim l)) (Some (pre @ good @ CHR 0x0A # junk)) = seq e"
proof -
  from assms(1,4) have g: "good \<noteq> []" by auto
  have sp: "\<exists>ps. split_nl (pre @ good) = ps @ [good]"
  proof (cases "pre = []")
    case True
    with assms(3) show ?thesis by (simp add: split_nl_single)
  next
    case False
    with assms(2) obtain p where "pre = p @ [CHR 0x0A]"
      by (cases pre rule: rev_cases) auto
    then have "split_nl (pre @ good) = split_nl p @ [good]"
      using assms(3) split_nl_append_nl [of p good] by (simp add: split_nl_single)
    then show ?thesis by blast
  qed
  then obtain ps where ps: "split_nl (pre @ good) = ps @ [good]" ..
  have "split_nl (pre @ good @ CHR 0x0A # junk) = ps @ [good] @ split_nl junk"
    using split_nl_append_nl [of "pre @ good" junk] ps by simp
  then have "first_decoded (\<lambda>l. parse (trim l)) (rev (split_nl (pre @ good @ CHR 0x0A # junk))) =
      first_decoded (\<lambda>l. parse (trim l)) (rev (split_nl junk) @ (good # rev ps))"
    by simp
  also have "\<dots> = first_decoded (\<lambda>l. parse (trim l)) (good # rev ps)"
    by (rule first_decoded_skip) (use assms(5) in auto)
  also have "\<dots> = seq e" using g assms(4) by simp
  finally show ?thesis by (simp add: spec_recover_def)
qed

lemmas canon_eval = canon_parse_def strip_prefix_def read_int_def read_nat_def is_numch_def
  is_digit_def is_plain_def digit_val_def

lemmas trim_eval = trim_def trimStart_def trimEnd_def is_ws_def

lemma canon_parse_Nil: "canon_parse [] = None"
  by (simp add: canon_eval)

subsection \<open>Recovery\<close>

text \<open>
  Claim C2. For every file, missing, empty or with any content, \<^verbatim>\<open>recoverLastSeq\<close>
  returns what the scan of the specification returns: the file split into lines, the
  lines taken from the last to the first, an empty line skipped, the \<^verbatim>\<open>seq\<close> of the first
  line that decodes, and 0 when the file is empty or missing or no line decodes. To decode
  a line is what the source does with it: \<^verbatim>\<open>JSON.parse\<close> of the trimmed line. The one
  thing asked of \<^verbatim>\<open>JSON.parse\<close> is that it rejects the empty string.

  In particular, when a line that decodes is followed by lines that do not, opening the
  log succeeds and the counter is the \<^verbatim>\<open>seq\<close> of that line.
\<close>

theorem recovery_scans_backward:
  assumes "parse [] = None"
  shows "recoverLastSeq parse (readFile f) = Inr (spec_recover (\<lambda>l. parse (trim l)) f) \<and>
         (\<forall>pre good junk e.
            (pre = [] \<or> last pre = CHR 0x0A) \<and> CHR 0x0A \<notin> set good \<and>
            parse (trim good) = Some e \<and> (\<forall>l \<in> set (split_nl junk). parse (trim l) = None) \<longrightarrow>
            createEventLog parse True (ReadOk (pre @ good @ CHR 0x0A # junk)) =
              Inr (new_log (Some (pre @ good @ CHR 0x0A # junk)) (seq e)))"
proof (intro conjI allI impI)
  show "recoverLastSeq parse (readFile f) = Inr (spec_recover (\<lambda>l. parse (trim l)) f)"
    using assms by (rule recoverLastSeq_spec)
next
  fix pre good junk e
  assume h: "(pre = [] \<or> last pre = CHR 0x0A) \<and> CHR 0x0A \<notin> set good \<and>
            parse (trim good) = Some e \<and> (\<forall>l \<in> set (split_nl junk). parse (trim l) = None)"
  let ?raw = "pre @ good @ CHR 0x0A # junk"
  have "recoverLastSeq parse (readFile (Some ?raw)) = Inr (spec_recover (\<lambda>l. parse (trim l)) (Some ?raw))"
    using assms by (rule recoverLastSeq_spec)
  moreover have "spec_recover (\<lambda>l. parse (trim l)) (Some ?raw) = seq e"
    using spec_recover_tail [where parse = parse and pre = pre and good = good and junk = junk and e = e]
      assms h by blast
  ultimately show "createEventLog parse True (ReadOk ?raw) = Inr (new_log (Some ?raw) (seq e))"
    by (simp add: createEventLog_def)
qed

theorem recovery_scans_backward_witness:
  "canon_parse [] = None \<and>
   recoverLastSeq canon_parse
     (readFile (Some (''{\"seq\":1,\"ts\":1000,\"type\":\"A\",\"payload\":null}'' @ CHR 0x0A #
                      ''{\"seq\":2,\"ts\":17''))) = Inr 1 \<and>
   createEventLog canon_parse True
     (ReadOk (''{\"seq\":1,\"ts\":1000,\"type\":\"A\",\"payload\":null}'' @ CHR 0x0A #
              ''{\"seq\":2,\"ts\":17'')) =
     Inr (new_log (Some (''{\"seq\":1,\"ts\":1000,\"type\":\"A\",\"payload\":null}'' @ CHR 0x0A #
                         ''{\"seq\":2,\"ts\":17'')) 1)"
proof -
  let ?good = "''{\"seq\":1,\"ts\":1000,\"type\":\"A\",\"payload\":null}''"
  let ?junk = "''{\"seq\":2,\"ts\":17''"
  let ?e = "\<lparr>seq = 1, ts = 1000, type = ''A'', payload = ()\<rparr>"
  have tg: "trim ?good = ?good" by (rule trim_id) (simp_all add: is_ws_def)
  have pg: "canon_parse (trim ?good) = Some ?e" unfolding tg by (simp add: canon_eval)
  have tj: "trim ?junk = ?junk" by (rule trim_id) (simp_all add: is_ws_def)
  have pj: "canon_parse (trim ?junk) = None" unfolding tj by (simp add: canon_eval)
  have sj: "split_nl ?junk = [?junk]" by (rule split_nl_single) simp
  have ng: "CHR 0x0A \<notin> set ?good" by simp
  note th = recovery_scans_backward [where parse = canon_parse, OF canon_parse_Nil]
  have c: "createEventLog canon_parse True (ReadOk ([] @ ?good @ CHR 0x0A # ?junk)) =
      Inr (new_log (Some ([] @ ?good @ CHR 0x0A # ?junk)) (seq ?e))"
    using th [THEN conjunct2, rule_format, of "[]" ?good ?e ?junk] ng pg pj sj by simp
  have "spec_recover (\<lambda>l. canon_parse (trim l)) (Some ([] @ ?good @ CHR 0x0A # ?junk)) = 1"
    using spec_recover_tail [where parse = canon_parse and pre = "[]" and good = ?good
        and junk = ?junk and e = ?e] canon_parse_Nil ng pg pj sj by simp
  then have r: "recoverLastSeq canon_parse (readFile (Some ([] @ ?good @ CHR 0x0A # ?junk))) = Inr 1"
    using th [THEN conjunct1, of "Some ([] @ ?good @ CHR 0x0A # ?junk)"] by simp
  from c r canon_parse_Nil show ?thesis by simp
qed

subsection \<open>Runs of appends\<close>

lemma appends_Cons_Some:
  assumes "appends stringify beh (req # reqs) st = Some (rs, st')"
  obtains r st1 rs' where
    "append stringify beh (fst req) (fst (snd req)) (fst (snd (snd req))) (snd (snd (snd req))) st
       = Some (r, st1)"
    "appends stringify beh reqs st1 = Some (rs', st')"
    "rs = (r, lastSeq st1) # rs'"
proof -
  obtain now wr ty pl where req: "req = (now, wr, ty, pl)" by (cases req) auto
  from assms obtain r st1 where a: "append stringify beh now wr ty pl st = Some (r, st1)"
    unfolding req by (auto split: option.splits)
  with assms obtain rs' st2 where b: "appends stringify beh reqs st1 = Some (rs', st2)"
    unfolding req by (auto split: option.splits)
  with a assms have "rs = (r, lastSeq st1) # rs'" "st2 = st'"
    unfolding req by auto
  with a b that req show thesis by simp
qed

lemma appends_seq:
  assumes "appends stringify beh reqs st = Some (rs, st')"
  shows "length rs = length reqs \<and> lastSeq st' = lastSeq st + int (length reqs) \<and>
         (\<forall>k < length rs. snd (rs ! k) = lastSeq st + int k + 1 \<and>
            (\<forall>e. fst (rs ! k) = Inr e \<longrightarrow> seq e = lastSeq st + int k + 1))"
  using assms
proof (induction reqs arbitrary: st rs)
  case Nil
  then show ?case by simp
next
  case (Cons req reqs)
  from Cons.prems obtain r st1 rs' where
    a: "append stringify beh (fst req) (fst (snd req)) (fst (snd (snd req))) (snd (snd (snd req))) st
       = Some (r, st1)"
    and b: "appends stringify beh reqs st1 = Some (rs', st')"
    and rs: "rs = (r, lastSeq st1) # rs'"
    by (rule appends_Cons_Some)
  note l1 = append_effect(1) [OF a]
  have e1: "seq e = lastSeq st + 1" if "r = Inr e" for e
    using append_effect(2) [OF a that] by simp
  from Cons.IH [OF b] have IH: "length rs' = length reqs" "lastSeq st' = lastSeq st1 + int (length reqs)"
    "\<And>k. k < length rs' \<Longrightarrow> snd (rs' ! k) = lastSeq st1 + int k + 1 \<and>
            (\<forall>e. fst (rs' ! k) = Inr e \<longrightarrow> seq e = lastSeq st1 + int k + 1)"
    by auto
  have "snd (rs ! k) = lastSeq st + int k + 1 \<and>
            (\<forall>e. fst (rs ! k) = Inr e \<longrightarrow> seq e = lastSeq st + int k + 1)"
    if k: "k < length rs" for k
  proof (cases k)
    case 0
    with rs l1 e1 show ?thesis by simp
  next
    case (Suc j)
    with k rs have "j < length rs'" by simp
    from IH(3) [OF this] Suc rs l1 show ?thesis by simp
  qed
  with IH(1,2) rs l1 show ?case by simp
qed

lemma recoverLastSeq_fresh:
  assumes "rr = ReadENOENT \<or> rr = ReadOk []"
  shows "createEventLog parse True rr = Inr (new_log (file_of rr) 0)"
  using assms by (auto simp: createEventLog_def recoverLastSeq_def)

lemma lastSeq_new_log [simp]: "lastSeq (new_log f s) = s"
  by (simp add: new_log_def)

lemma logFile_new_log [simp]: "logFile (new_log f s) = f"
  by (simp add: new_log_def)

text \<open>
  Claim C1. A log is created over a missing or empty file and a caller appends \<open>N\<close>
  times, each \<^verbatim>\<open>append\<close> returning its entry. Then the counter starts at 0, the entry
  the \<open>k\<close>-th call returns has \<^verbatim>\<open>seq\<close> \<open>k\<close> (counted from 1), and \<^verbatim>\<open>lastSeq()\<close> read after
  that call is \<open>k\<close>.
\<close>

theorem appends_count_from_one:
  assumes "rr = ReadENOENT \<or> rr = ReadOk []"
    and "createEventLog parse True rr = Inr st0"
    and "appends stringify beh reqs st0 = Some (rs, st')"
    and "\<forall>x \<in> set rs. \<exists>e. fst x = Inr e"
  shows "lastSeq st0 = 0 \<and> length rs = length reqs \<and>
         (\<forall>k < length reqs. \<exists>e. rs ! k = (Inr e, int k + 1) \<and> seq e = int k + 1)"
proof -
  from assms(1,2) have st0: "st0 = new_log (file_of rr) 0"
    using recoverLastSeq_fresh [OF assms(1), of parse] by simp
  then have z: "lastSeq st0 = 0" by simp
  from appends_seq [OF assms(3)] z have len: "length rs = length reqs"
    and each: "\<And>k. k < length rs \<Longrightarrow> snd (rs ! k) = int k + 1 \<and>
            (\<forall>e. fst (rs ! k) = Inr e \<longrightarrow> seq e = int k + 1)"
    by auto
  have "\<exists>e. rs ! k = (Inr e, int k + 1) \<and> seq e = int k + 1" if "k < length reqs" for k
  proof -
    from that len have k: "k < length rs" by simp
    with assms(4) obtain e where e: "fst (rs ! k) = Inr e" by (meson nth_mem)
    with each [OF k] have "snd (rs ! k) = int k + 1" "seq e = int k + 1" by auto
    with e show ?thesis by (cases "rs ! k") auto
  qed
  with z len show ?thesis by blast
qed

lemmas stringify_eval = canon_stringify_def show_int_def show_nat_small show_nat_big is_plain_def
  digit_char_def

lemma fanout_new_log [simp]:
  "fanout beh entry Listeners i (new_log f s) = Some (new_log f s)"
  by (rule fanout_no_elems) (simp add: new_log_def)

lemma append_new_log:
  assumes "stringify \<lparr>seq = s + 1, ts = now, type = ty, payload = pl\<rparr> = Some json"
  shows "append stringify beh now Written ty pl (new_log f s) =
     Some (Inr \<lparr>seq = s + 1, ts = now, type = ty, payload = pl\<rparr>,
           new_log (Some (content f @ json @ [CHR 0x0A])) (s + 1))"
proof -
  have n: "(new_log f s)\<lparr>lastSeq := s + 1, logFile := Some (content f @ json @ [CHR 0x0A])\<rparr> =
        new_log (Some (content f @ json @ [CHR 0x0A])) (s + 1)"
    by (simp add: new_log_def)
  have t: "typeListeners (new_log (Some (content f @ json @ [CHR 0x0A])) (s + 1)) ty = None"
    by (simp add: new_log_def)
  show ?thesis
    using assms by (simp add: append_def Let_def n t)
qed

theorem appends_count_from_one_witness:
  "createEventLog canon_parse True ReadENOENT = Inr (new_log None 0) \<and>
   (\<exists>rs st'. appends canon_stringify quiet [(1000, Written, ''A'', ()), (1001, Written, ''B'', ())]
        (new_log None 0) = Some (rs, st') \<and>
      length rs = 2 \<and>
      (\<exists>e. rs ! 0 = (Inr e, 1) \<and> seq e = 1) \<and> (\<exists>e. rs ! 1 = (Inr e, 2) \<and> seq e = 2))"
proof -
  let ?reqs = "[(1000, Written, ''A'', ()), (1001, Written, ''B'', ())] :: unit request list"
  let ?l1 = "''{\"seq\":1,\"ts\":1000,\"type\":\"A\",\"payload\":null}''"
  let ?l2 = "''{\"seq\":2,\"ts\":1001,\"type\":\"B\",\"payload\":null}''"
  let ?rs = "[(Inr \<lparr>seq = 1, ts = 1000, type = ''A'', payload = ()\<rparr>, 1),
              (Inr \<lparr>seq = 2, ts = 1001, type = ''B'', payload = ()\<rparr>, 2)]
              :: ((error + unit EventLogEntry) \<times> int) list"
  let ?st' = "new_log (Some (?l1 @ CHR 0x0A # ?l2 @ [CHR 0x0A])) 2 :: unit EventLog"
  have c: "createEventLog canon_parse True ReadENOENT = Inr (new_log None 0)"
    by (simp add: createEventLog_def recoverLastSeq_def)
  have s1: "canon_stringify \<lparr>seq = 0 + 1, ts = 1000, type = ''A'', payload = ()\<rparr> = Some ?l1"
    by (simp add: stringify_eval)
  have s2: "canon_stringify \<lparr>seq = 1 + 1, ts = 1001, type = ''B'', payload = ()\<rparr> = Some ?l2"
    by (simp add: stringify_eval)
  have run: "appends canon_stringify quiet ?reqs (new_log None 0) = Some (?rs, ?st')"
    using append_new_log [where stringify = canon_stringify and s = 0 and now = 1000
        and ty = "''A''" and pl = "()" and json = ?l1 and beh = quiet and f = None, OF s1]
      append_new_log [where stringify = canon_stringify and s = 1 and now = 1001
        and ty = "''B''" and pl = "()" and json = ?l2 and beh = quiet
        and f = "Some (?l1 @ [CHR 0x0A])", OF s2]
    by simp
  have ok: "\<forall>x \<in> set ?rs. \<exists>e. fst x = Inr e" by simp
  from appends_count_from_one [where rr = ReadENOENT and parse = canon_parse, OF _ c run ok]
  have all: "\<forall>k < length ?reqs. \<exists>e. ?rs ! k = (Inr e, int k + 1) \<and> seq e = int k + 1"
    by blast
  have k0: "\<exists>e. ?rs ! 0 = (Inr e, 1) \<and> seq e = 1"
    using all [rule_format, of 0] by simp
  have k1: "\<exists>e. ?rs ! 1 = (Inr e, 2) \<and> seq e = 2"
    using all [rule_format, of 1] by simp
  from k0 k1
  have "(\<exists>e. ?rs ! 0 = (Inr e, 1) \<and> seq e = 1) \<and> (\<exists>e. ?rs ! 1 = (Inr e, 2) \<and> seq e = 2)"
    by (rule conjI)
  with c run show ?thesis by (intro conjI exI [of _ ?rs] exI [of _ ?st']) simp_all
qed

subsection \<open>Reopening\<close>

lemma trimEnd_id: "s \<noteq> [] \<Longrightarrow> \<not> is_ws (last s) \<Longrightarrow> trimEnd s = s"
  by (cases s rule: rev_cases) (simp_all add: trimEnd_def)

lemma recover_loop_last:
  assumes "trim l \<noteq> []" "parse (trim l) = Some e"
  shows "recover_loop parse (ps @ [l]) (Suc (length ps)) = seq e"
  using assms by (simp add: Let_def)

lemma recover_last_line:
  assumes "json \<noteq> []" "\<not> is_ws (hd json)" "\<not> is_ws (last json)" "CHR 0x0A \<notin> set json"
    and "parse json = Some e" and "pre = [] \<or> last pre = CHR 0x0A"
  shows "recoverLastSeq parse (ReadOk (pre @ json @ [CHR 0x0A])) = Inr (seq e)"
proof -
  let ?raw = "pre @ json @ [CHR 0x0A]"
  have tj: "trim json = json" using assms(1-3) by (rule trim_id)
  have "hd json \<in> set ?raw" using assms(1) by simp
  with assms(2) have nb: "trim ?raw \<noteq> []" unfolding trim_empty_iff by blast
  have "trimEnd ?raw = trimEnd (pre @ json)"
    using trimEnd_snoc [of "pre @ json" "CHR 0x0A"] by simp
  also have "\<dots> = pre @ json" using assms(1,3) by (intro trimEnd_id) simp_all
  finally have te: "trimEnd ?raw = pre @ json" .
  have "\<exists>ps. split_nl (pre @ json) = ps @ [json]"
  proof (cases "pre = []")
    case True
    with assms(4) show ?thesis by (simp add: split_nl_single)
  next
    case False
    with assms(6) obtain p where "pre = p @ [CHR 0x0A]"
      by (cases pre rule: rev_cases) auto
    then have "split_nl (pre @ json) = split_nl p @ [json]"
      using assms(4) split_nl_append_nl [of p json] by (simp add: split_nl_single)
    then show ?thesis by blast
  qed
  then obtain ps where ps: "split_nl (pre @ json) = ps @ [json]" ..
  have "recover_loop parse (ps @ [json]) (Suc (length ps)) = seq e"
    by (rule recover_loop_last) (simp_all add: tj assms(1,5))
  with nb te ps show ?thesis by (simp add: recoverLastSeq_def Let_def)
qed

lemma appends_file:
  assumes "codec_ok parse stringify"
    and "appends stringify beh reqs st = Some (rs, st')"
    and "\<forall>x \<in> set rs. \<exists>e. fst x = Inr e"
    and "content (logFile st) = [] \<or> last (content (logFile st)) = CHR 0x0A"
    and "reqs \<noteq> []"
  shows "\<exists>pre json e. logFile st' = Some (pre @ json @ [CHR 0x0A]) \<and>
           (pre = [] \<or> last pre = CHR 0x0A) \<and> stringify e = Some json \<and>
           seq e = lastSeq st + int (length reqs)"
  using assms(2-5)
proof (induction reqs arbitrary: st rs)
  case Nil
  then show ?case by simp
next
  case (Cons req reqs)
  from Cons.prems(1) obtain r st1 rs' where
    a: "append stringify beh (fst req) (fst (snd req)) (fst (snd (snd req))) (snd (snd (snd req))) st
       = Some (r, st1)"
    and b: "appends stringify beh reqs st1 = Some (rs', st')"
    and rs: "rs = (r, lastSeq st1) # rs'"
    by (rule appends_Cons_Some)
  from Cons.prems(2) rs obtain e where r: "r = Inr e" by auto
  from append_effect(2) [OF a r] obtain json where
    e: "seq e = lastSeq st + 1" and j: "stringify e = Some json"
    and f1: "logFile st1 = Some (content (logFile st) @ json @ [CHR 0x0A])"
    by auto
  note l1 = append_effect(1) [OF a]
  show ?case
  proof (cases "reqs = []")
    case True
    with b have "st' = st1" by simp
    with f1 j e Cons.prems(3) True show ?thesis by auto
  next
    case False
    have "\<exists>pre json e. logFile st' = Some (pre @ json @ [CHR 0x0A]) \<and>
           (pre = [] \<or> last pre = CHR 0x0A) \<and> stringify e = Some json \<and>
           seq e = lastSeq st1 + int (length reqs)"
    proof (rule Cons.IH [OF b _ _ False])
      show "\<forall>x \<in> set rs'. \<exists>e. fst x = Inr e" using Cons.prems(2) rs by simp
      show "content (logFile st1) = [] \<or> last (content (logFile st1)) = CHR 0x0A"
        using f1 by simp
    qed
    with l1 show ?thesis by (simp add: add.assoc)
  qed
qed

text \<open>
  Claim C4. A log is created over a missing or empty file and \<open>N\<close> appends succeed. A
  log created afterwards over the file as it then is starts with \<^verbatim>\<open>lastSeq()\<close> equal to
  \<open>N\<close>, and an append on it whose line is written returns an entry with \<^verbatim>\<open>seq\<close> \<open>N + 1\<close>.
  What is asked of the JSON functions is \<open>codec_ok\<close>.
\<close>

theorem reopen_continues:
  assumes "codec_ok parse stringify"
    and "rr = ReadENOENT \<or> rr = ReadOk []"
    and "createEventLog parse True rr = Inr st0"
    and "appends stringify beh reqs st0 = Some (rs, st')"
    and "\<forall>x \<in> set rs. \<exists>e. fst x = Inr e"
  shows "createEventLog parse True (readFile (logFile st')) =
           Inr (new_log (logFile st') (int (length reqs))) \<and>
         (\<forall>beh' now ty pl json.
            stringify \<lparr>seq = int (length reqs) + 1, ts = now, type = ty, payload = pl\<rparr> = Some json \<longrightarrow>
            (\<exists>st2. append stringify beh' now Written ty pl (new_log (logFile st') (int (length reqs))) =
               Some (Inr \<lparr>seq = int (length reqs) + 1, ts = now, type = ty, payload = pl\<rparr>, st2) \<and>
               lastSeq st2 = int (length reqs) + 1))"
proof -
  from assms(2,3) have st0: "st0 = new_log (file_of rr) 0"
    using recoverLastSeq_fresh [OF assms(2), of parse] by simp
  have fresh: "content (logFile st0) = []" using assms(2) st0 by auto
  have rec: "recoverLastSeq parse (readFile (logFile st')) = Inr (int (length reqs))"
  proof (cases "reqs = []")
    case True
    with assms(4) have "st' = st0" by simp
    with st0 assms(2) True show ?thesis by (auto simp: recoverLastSeq_def)
  next
    case False
    from appends_file [OF assms(1,4,5) _ False] fresh st0
    obtain pre json e where f: "logFile st' = Some (pre @ json @ [CHR 0x0A])"
      and pre: "pre = [] \<or> last pre = CHR 0x0A" and j: "stringify e = Some json"
      and sq: "seq e = int (length reqs)"
      by auto
    from assms(1) j obtain e' where ok: "CHR 0x0A \<notin> set json" "json \<noteq> []" "\<not> is_ws (hd json)"
      "\<not> is_ws (last json)" "parse json = Some e'" "seq e' = seq e"
      unfolding codec_ok_def by blast
    from recover_last_line [where parse = parse and json = json and e = e' and pre = pre]
      ok pre f sq show ?thesis by simp
  qed
  have file_eq: "file_of (readFile f) = f" for f by (cases f) simp_all
  have open_again: "createEventLog parse True (readFile (logFile st')) =
           Inr (new_log (logFile st') (int (length reqs)))"
    using rec by (simp add: createEventLog_def file_eq)
  have next_append: "\<exists>st2. append stringify beh' now Written ty pl (new_log (logFile st') (int (length reqs))) =
               Some (Inr \<lparr>seq = int (length reqs) + 1, ts = now, type = ty, payload = pl\<rparr>, st2) \<and>
               lastSeq st2 = int (length reqs) + 1"
    if "stringify \<lparr>seq = int (length reqs) + 1, ts = now, type = ty, payload = pl\<rparr> = Some json"
    for beh' now ty pl json
    using append_new_log [where stringify = stringify and s = "int (length reqs)" and now = now
        and ty = ty and pl = pl and json = json and beh = beh' and f = "logFile st'"] that
    by simp
  from open_again next_append show ?thesis by blast
qed

lemma two_appends_run:
  "appends canon_stringify quiet
     ([(1000, Written, ''A'', ()), (1001, Written, ''B'', ())] :: unit request list)
     (new_log None 0) =
   Some ([(Inr \<lparr>seq = 1, ts = 1000, type = ''A'', payload = ()\<rparr>, 1),
          (Inr \<lparr>seq = 2, ts = 1001, type = ''B'', payload = ()\<rparr>, 2)],
         new_log (Some (''{\"seq\":1,\"ts\":1000,\"type\":\"A\",\"payload\":null}'' @ CHR 0x0A #
                        ''{\"seq\":2,\"ts\":1001,\"type\":\"B\",\"payload\":null}'' @ [CHR 0x0A])) 2)"
proof -
  let ?l1 = "''{\"seq\":1,\"ts\":1000,\"type\":\"A\",\"payload\":null}''"
  let ?l2 = "''{\"seq\":2,\"ts\":1001,\"type\":\"B\",\"payload\":null}''"
  have s1: "canon_stringify \<lparr>seq = 0 + 1, ts = 1000, type = ''A'', payload = ()\<rparr> = Some ?l1"
    by (simp add: stringify_eval)
  have s2: "canon_stringify \<lparr>seq = 1 + 1, ts = 1001, type = ''B'', payload = ()\<rparr> = Some ?l2"
    by (simp add: stringify_eval)
  show ?thesis
    using append_new_log [where stringify = canon_stringify and s = 0 and now = 1000
        and ty = "''A''" and pl = "()" and json = ?l1 and beh = quiet and f = None, OF s1]
      append_new_log [where stringify = canon_stringify and s = 1 and now = 1001
        and ty = "''B''" and pl = "()" and json = ?l2 and beh = quiet
        and f = "Some (?l1 @ [CHR 0x0A])", OF s2]
    by simp
qed

theorem reopen_continues_witness:
  "codec_ok canon_parse canon_stringify \<and>
   createEventLog canon_parse True ReadENOENT = Inr (new_log None 0) \<and>
   createEventLog canon_parse True
     (ReadOk (''{\"seq\":1,\"ts\":1000,\"type\":\"A\",\"payload\":null}'' @ CHR 0x0A #
              ''{\"seq\":2,\"ts\":1001,\"type\":\"B\",\"payload\":null}'' @ [CHR 0x0A])) =
     Inr (new_log (Some (''{\"seq\":1,\"ts\":1000,\"type\":\"A\",\"payload\":null}'' @ CHR 0x0A #
              ''{\"seq\":2,\"ts\":1001,\"type\":\"B\",\"payload\":null}'' @ [CHR 0x0A])) 2) \<and>
   (\<exists>st2. append canon_stringify quiet 1002 Written ''A'' ()
       (new_log (Some (''{\"seq\":1,\"ts\":1000,\"type\":\"A\",\"payload\":null}'' @ CHR 0x0A #
              ''{\"seq\":2,\"ts\":1001,\"type\":\"B\",\"payload\":null}'' @ [CHR 0x0A])) 2) =
       Some (Inr \<lparr>seq = 3, ts = 1002, type = ''A'', payload = ()\<rparr>, st2) \<and> lastSeq st2 = 3)"
proof -
  let ?reqs = "[(1000, Written, ''A'', ()), (1001, Written, ''B'', ())] :: unit request list"
  let ?rs = "[(Inr \<lparr>seq = 1, ts = 1000, type = ''A'', payload = ()\<rparr>, 1),
              (Inr \<lparr>seq = 2, ts = 1001, type = ''B'', payload = ()\<rparr>, 2)]
              :: ((error + unit EventLogEntry) \<times> int) list"
  let ?f = "Some (''{\"seq\":1,\"ts\":1000,\"type\":\"A\",\"payload\":null}'' @ CHR 0x0A #
              ''{\"seq\":2,\"ts\":1001,\"type\":\"B\",\"payload\":null}'' @ [CHR 0x0A])"
  have c: "createEventLog canon_parse True ReadENOENT = Inr (new_log None 0)"
    by (simp add: createEventLog_def recoverLastSeq_def)
  have ok: "\<forall>x \<in> set ?rs. \<exists>e. fst x = Inr e" by simp
  have s3: "canon_stringify \<lparr>seq = int (length ?reqs) + 1, ts = 1002, type = ''A'', payload = ()\<rparr> =
      Some ''{\"seq\":3,\"ts\":1002,\"type\":\"A\",\"payload\":null}''"
    by (simp add: stringify_eval)
  note th = reopen_continues [where parse = canon_parse and stringify = canon_stringify
      and rr = ReadENOENT and beh = quiet and reqs = ?reqs and rs = ?rs,
      OF canon_codec_ok _ c two_appends_run ok]
  have a: "createEventLog canon_parse True (ReadOk (the ?f)) = Inr (new_log ?f 2)"
    using th [THEN conjunct1] by simp
  have b: "\<exists>st2. append canon_stringify quiet 1002 Written ''A'' () (new_log ?f 2) =
       Some (Inr \<lparr>seq = 3, ts = 1002, type = ''A'', payload = ()\<rparr>, st2) \<and> lastSeq st2 = 3"
    using th [THEN conjunct2, rule_format, of 1002 "''A''" "()" _ quiet] s3 by simp
  from canon_codec_ok c a b show ?thesis by simp
qed

subsection \<open>Reading\<close>

lemma not_le_greater:
  "n \<noteq> NaN \<Longrightarrow> a \<noteq> NaN \<Longrightarrow> (\<not> number_le n a) = greater n a"
  by (cases n; cases a) auto

lemma reached_Finite: "reached n (Finite q) \<longleftrightarrow> nat \<lceil>q\<rceil> \<le> n"
proof -
  have "q \<le> of_nat n \<longleftrightarrow> \<lceil>q\<rceil> \<le> int n"
    by (simp add: ceiling_le_iff)
  then show ?thesis by (simp add: reached_def nat_le_iff)
qed

lemma reached_never: "\<not> reached n PosInfinity" "\<not> reached n NaN"
  by (simp_all add: reached_def)

lemma reached_NegInfinity: "reached n NegInfinity"
  by (simp add: reached_def)

lemma read_loop_blank:
  "trim l = [] \<Longrightarrow>
   read_loop parse co a limit f (l # ls) rs = read_loop parse co a limit f ls rs"
  by simp

lemma read_loop_undecodable:
  "parse l = None \<Longrightarrow>
   read_loop parse co a limit f (l # ls) rs = read_loop parse co a limit f ls rs"
  by simp

lemma read_loop_skipped:
  "parse l = Some e \<Longrightarrow> \<not> kept co a f e \<Longrightarrow>
   read_loop parse co a limit f (l # ls) rs = read_loop parse co a limit f ls rs"
  by (auto simp: kept_def split: option.splits)

lemma read_loop_pushed:
  "trim l \<noteq> [] \<Longrightarrow> parse l = Some e \<Longrightarrow> kept co a f e \<Longrightarrow>
   read_loop parse co a limit f (l # ls) rs =
     (if reached (Suc (length rs)) limit then rs @ [e]
      else read_loop parse co a limit f ls (rs @ [e]))"
  by (auto simp: kept_def Let_def split: option.splits)

lemma decodable_Cons_blank:
  "trim l = [] \<Longrightarrow>
   List.map_filter parse (filter (\<lambda>line. trim line \<noteq> []) (l # ls)) =
   List.map_filter parse (filter (\<lambda>line. trim line \<noteq> []) ls)"
  by simp

lemma decodable_Cons_None:
  "parse l = None \<Longrightarrow>
   List.map_filter parse (filter (\<lambda>line. trim line \<noteq> []) (l # ls)) =
   List.map_filter parse (filter (\<lambda>line. trim line \<noteq> []) ls)"
  by simp

lemma decodable_Cons_Some:
  "trim l \<noteq> [] \<Longrightarrow> parse l = Some e \<Longrightarrow>
   List.map_filter parse (filter (\<lambda>line. trim line \<noteq> []) (l # ls)) =
   e # List.map_filter parse (filter (\<lambda>line. trim line \<noteq> []) ls)"
  by simp

text \<open>
  What the loop returns. When the test of the limit never holds, it is every value of
  the lines that the loop keeps. When the test holds from the count \<open>c\<close> on, it is the
  first \<open>c\<close> of them, and one of them when \<open>c\<close> is 0: the test comes after the push.
\<close>

lemma read_loop_unlimited:
  assumes "\<And>n. \<not> reached n limit"
  shows "read_loop parse co a limit f lines rs =
     rs @ filter (kept co a f) (List.map_filter parse (filter (\<lambda>line. trim line \<noteq> []) lines))"
proof (induction lines arbitrary: rs)
  case Nil
  show ?case by simp
next
  case (Cons l ls)
  show ?case
  proof (cases "trim l = []")
    case True
    show ?thesis
      unfolding read_loop_blank [OF True] decodable_Cons_blank [OF True] by (rule Cons.IH)
  next
    case nb: False
    show ?thesis
    proof (cases "parse l")
      case None
      show ?thesis
        unfolding read_loop_undecodable [where parse = parse and l = l, OF None]
          decodable_Cons_None [where parse = parse and l = l, OF None]
        by (rule Cons.IH)
    next
      case (Some e)
      show ?thesis
      proof (cases "kept co a f e")
        case False
        show ?thesis
          unfolding read_loop_skipped [where parse = parse and l = l, OF Some False]
            decodable_Cons_Some [where parse = parse and l = l, OF nb Some]
          using False Cons.IH by simp
      next
        case True
        show ?thesis
          unfolding read_loop_pushed [where parse = parse and l = l, OF nb Some True]
            decodable_Cons_Some [where parse = parse and l = l, OF nb Some]
          using True Cons.IH assms by simp
      qed
    qed
  qed
qed

lemma read_loop_limited:
  assumes "\<And>n. reached n limit \<longleftrightarrow> c \<le> n"
  shows "read_loop parse co a limit f lines rs =
     rs @ take (max 1 (c - length rs))
            (filter (kept co a f) (List.map_filter parse (filter (\<lambda>line. trim line \<noteq> []) lines)))"
proof (induction lines arbitrary: rs)
  case Nil
  show ?case by simp
next
  case (Cons l ls)
  show ?case
  proof (cases "trim l = []")
    case True
    show ?thesis
      unfolding read_loop_blank [OF True] decodable_Cons_blank [OF True] by (rule Cons.IH)
  next
    case nb: False
    show ?thesis
    proof (cases "parse l")
      case None
      show ?thesis
        unfolding read_loop_undecodable [where parse = parse and l = l, OF None]
          decodable_Cons_None [where parse = parse and l = l, OF None]
        by (rule Cons.IH)
    next
      case (Some e)
      show ?thesis
      proof (cases "kept co a f e")
        case False
        show ?thesis
          unfolding read_loop_skipped [where parse = parse and l = l, OF Some False]
            decodable_Cons_Some [where parse = parse and l = l, OF nb Some]
          using False Cons.IH by simp
      next
        case True
        let ?rest = "filter (kept co a f) (List.map_filter parse (filter (\<lambda>line. trim line \<noteq> []) ls))"
        show ?thesis
        proof (cases "reached (Suc (length rs)) limit")
          case r: True
          then have "c \<le> Suc (length rs)" using assms by simp
          then have "max 1 (c - length rs) = 1" by auto
          then have "take (max 1 (c - length rs)) (e # ?rest) = [e]" by simp
          with r True show ?thesis
            unfolding read_loop_pushed [where parse = parse and l = l, OF nb Some True]
              decodable_Cons_Some [where parse = parse and l = l, OF nb Some]
            by simp
        next
          case r: False
          then have "\<not> c \<le> Suc (length rs)" using assms by simp
          then have "max 1 (c - length rs) = Suc (max 1 (c - length (rs @ [e])))"
            by auto
          then have "take (max 1 (c - length rs)) (e # ?rest) =
                     e # take (max 1 (c - length (rs @ [e]))) ?rest" by simp
          with r True Cons.IH [of "rs @ [e]"] show ?thesis
            unfolding read_loop_pushed [where parse = parse and l = l, OF nb Some True]
              decodable_Cons_Some [where parse = parse and l = l, OF nb Some]
            by simp
        qed
      qed
    qed
  qed
qed

lemma after_seq_case:
  "(case x of None \<Rightarrow> Finite 0 | Some a \<Rightarrow> a) = after_seq x"
  by (cases x) simp_all

text \<open>
  \<^verbatim>\<open>read\<close> on a file that is there, for every content and all options: the values the
  loop keeps, in the order of the file, all of them or the first ones.
\<close>

lemma read_ReadOk:
  "read parse co (ReadOk raw) opts =
     Inr (case opt_limit opts of
            None \<Rightarrow> filter (kept co (after_seq (opt_afterSeq opts)) (opt_type opts)) (decodable parse raw)
          | Some PosInfinity \<Rightarrow>
              filter (kept co (after_seq (opt_afterSeq opts)) (opt_type opts)) (decodable parse raw)
          | Some NaN \<Rightarrow>
              filter (kept co (after_seq (opt_afterSeq opts)) (opt_type opts)) (decodable parse raw)
          | Some NegInfinity \<Rightarrow>
              take 1 (filter (kept co (after_seq (opt_afterSeq opts)) (opt_type opts))
                        (decodable parse raw))
          | Some (Finite q) \<Rightarrow>
              take (max 1 (nat \<lceil>q\<rceil>))
                (filter (kept co (after_seq (opt_afterSeq opts)) (opt_type opts))
                   (decodable parse raw)))"
proof (cases "opt_limit opts")
  case None
  then show ?thesis
    by (simp add: read_def Let_def after_seq_case decodable_def
        read_loop_unlimited [OF reached_never(1)])
next
  case (Some n)
  show ?thesis
  proof (cases n)
    case (Finite q)
    have "\<And>k. reached k (Finite q) \<longleftrightarrow> nat \<lceil>q\<rceil> \<le> k" by (rule reached_Finite)
    from read_loop_limited [where limit = "Finite q", OF this] Some Finite show ?thesis
      by (simp add: read_def Let_def after_seq_case decodable_def)
  next
    case PosInfinity
    with Some show ?thesis
      by (simp add: read_def Let_def after_seq_case decodable_def
          read_loop_unlimited [OF reached_never(1)])
  next
    case NegInfinity
    have "\<And>k. reached k NegInfinity \<longleftrightarrow> 0 \<le> k" by (simp add: reached_NegInfinity)
    from read_loop_limited [where limit = NegInfinity, OF this] Some NegInfinity show ?thesis
      by (simp add: read_def Let_def after_seq_case decodable_def)
  next
    case NaN
    with Some show ?thesis
      by (simp add: read_def Let_def after_seq_case decodable_def
          read_loop_unlimited [OF reached_never(2)])
  qed
qed

lemma kept_eligible:
  assumes "a \<noteq> NaN" and "f \<noteq> Some []" and "v = JNull \<or> seq_of v \<noteq> None"
  shows "kept co a f v = eligible a f v"
proof (cases "v = JNull")
  case True
  then show ?thesis by (simp add: kept_def eligible_def seq_of_def)
next
  case False
  with assms(3) obtain n where n: "seq_of v = Some n" by auto
  then obtain ms where v: "v = JObject ms" and m: "map_of ms ''seq'' = Some (JNumber n)"
    and nn: "n \<noteq> NaN"
    by (cases v) (auto simp: seq_of_def split: option.splits json.splits if_splits)
  have ty: "type_mismatch f (JObject ms) =
      (\<not> (case f of None \<Rightarrow> True | Some t \<Rightarrow> member (JObject ms) ''type'' = Some (JString t)))"
    using assms(2) by (cases f) (auto split: option.splits)
  from n have n': "seq_of (JObject ms) = Some n" unfolding v .
  show ?thesis
    unfolding v using n' m ty not_le_greater [OF nn assms(1)]
    by (simp add: kept_def eligible_def)
qed

lemma filter_kept_eligible:
  assumes "a \<noteq> NaN" and "f \<noteq> Some []" and "records_only parse raw"
  shows "filter (kept co a f) (decodable parse raw) = filter (eligible a f) (decodable parse raw)"
proof (rule filter_cong [OF refl])
  fix v assume "v \<in> set (decodable parse raw)"
  with assms(3) have "v = JNull \<or> seq_of v \<noteq> None"
    by (simp add: records_only_def list_all_iff)
  with assms(1,2) show "kept co a f v = eligible a f v" by (rule kept_eligible)
qed

lemma decodable_append_nl:
  "decodable parse (a @ CHR 0x0A # b) = decodable parse a @ decodable parse b"
  by (simp add: decodable_def split_nl_append_nl List.map_filter_def)


lemma decodable_Nil [simp]: "decodable parse [] = []"
  by (simp add: decodable_def)

lemma decodable_line:
  assumes "CHR 0x0A \<notin> set l" "trim l \<noteq> []" "parse l = Some e"
  shows "decodable parse l = [e]"
  using assms by (simp add: decodable_def split_nl_single)

lemma decodable_junk:
  assumes "CHR 0x0A \<notin> set l" "parse l = None"
  shows "decodable parse l = []"
  using assms by (simp add: decodable_def split_nl_single)

lemma after_seq_not_NaN: "x \<noteq> Some NaN \<Longrightarrow> after_seq x \<noteq> NaN"
  by (cases x) simp_all







lemma read_one:
  assumes "opt_limit opts = Some n" and "nonpositive n"
  shows "read parse co (ReadOk raw) opts =
     Inr (take 1 (filter (kept co (after_seq (opt_afterSeq opts)) (opt_type opts))
                    (decodable parse raw)))"
proof (cases n)
  case (Finite q)
  with assms(2) have "nat \<lceil>q\<rceil> = 0" by (simp add: ceiling_le_iff)
  with assms(1) Finite show ?thesis by (simp add: read_ReadOk)
next
  case NegInfinity
  with assms(1) show ?thesis by (simp add: read_ReadOk)
next
  case PosInfinity
  with assms(2) show ?thesis by simp
next
  case NaN
  with assms(2) show ?thesis by simp
qed

text \<open>
  Claim C10, amended. The limit is 0 or less, \<^verbatim>\<open>afterSeq\<close> is absent or a number other than
  \<^verbatim>\<open>NaN\<close>, the type is absent or not the empty string, and every line of the file that is
  JSON holds a record or \<^verbatim>\<open>null\<close>. If the file holds an eligible record, \<^verbatim>\<open>read\<close> returns the
  first eligible record of the file and nothing else: the limit is compared only after
  a record has been pushed.
\<close>

theorem read_nonpositive_limit:
  assumes "opt_limit opts = Some n" and "nonpositive n"
    and "opt_afterSeq opts \<noteq> Some NaN" and "opt_type opts \<noteq> Some []"
    and "records_only parse raw"
    and "filter (eligible (after_seq (opt_afterSeq opts)) (opt_type opts)) (decodable parse raw) \<noteq> []"
  shows "read parse co (ReadOk raw) opts =
     Inr [hd (filter (eligible (after_seq (opt_afterSeq opts)) (opt_type opts)) (decodable parse raw))]"
proof -
  have t: "take 1 xs = [hd xs]" if "xs \<noteq> []" for xs :: "json list"
    using that by (cases xs) simp_all
  show ?thesis
    unfolding read_one [OF assms(1,2)]
      filter_kept_eligible [OF after_seq_not_NaN [OF assms(3)] assms(4,5)]
    using t [OF assms(6)] by simp
qed

lemma canon_line_A1:
  "CHR 0x0A \<notin> set ''{\"seq\":1,\"ts\":1000,\"type\":\"A\",\"payload\":null}''"
  "trim ''{\"seq\":1,\"ts\":1000,\"type\":\"A\",\"payload\":null}'' \<noteq> []"
  "canon_parse ''{\"seq\":1,\"ts\":1000,\"type\":\"A\",\"payload\":null}'' =
     Some \<lparr>seq = 1, ts = 1000, type = ''A'', payload = ()\<rparr>"
  by (simp, simp add: trim_empty_iff is_ws_def, simp add: canon_eval)

lemma canon_line_A2:
  "CHR 0x0A \<notin> set ''{\"seq\":2,\"ts\":1001,\"type\":\"A\",\"payload\":null}''"
  "trim ''{\"seq\":2,\"ts\":1001,\"type\":\"A\",\"payload\":null}'' \<noteq> []"
  "canon_parse ''{\"seq\":2,\"ts\":1001,\"type\":\"A\",\"payload\":null}'' =
     Some \<lparr>seq = 2, ts = 1001, type = ''A'', payload = ()\<rparr>"
  by (simp, simp add: trim_empty_iff is_ws_def, simp add: canon_eval)

lemma canon_line_B3:
  "CHR 0x0A \<notin> set ''{\"seq\":3,\"ts\":1002,\"type\":\"B\",\"payload\":null}''"
  "trim ''{\"seq\":3,\"ts\":1002,\"type\":\"B\",\"payload\":null}'' \<noteq> []"
  "canon_parse ''{\"seq\":3,\"ts\":1002,\"type\":\"B\",\"payload\":null}'' =
     Some \<lparr>seq = 3, ts = 1002, type = ''B'', payload = ()\<rparr>"
  by (simp, simp add: trim_empty_iff is_ws_def, simp add: canon_eval)

lemma canon_line_E2:
  "CHR 0x0A \<notin> set ''{\"seq\":2,\"ts\":1001,\"type\":\"\",\"payload\":null}''"
  "trim ''{\"seq\":2,\"ts\":1001,\"type\":\"\",\"payload\":null}'' \<noteq> []"
  "canon_parse ''{\"seq\":2,\"ts\":1001,\"type\":\"\",\"payload\":null}'' =
     Some \<lparr>seq = 2, ts = 1001, type = [], payload = ()\<rparr>"
  by (simp, simp add: trim_empty_iff is_ws_def, simp add: canon_eval)

lemma canon_line_junk:
  "CHR 0x0A \<notin> set ''not json''" "canon_parse ''not json'' = None"
  "json_parse ''not json'' = None"
  by (simp, simp add: canon_eval, simp add: json_parse_def canon_eval)

lemma canon_line_5:
  "CHR 0x0A \<notin> set ''5''" "trim ''5'' \<noteq> []" "json_parse ''5'' = Some (JNumber (Finite 5))"
  by (simp, simp add: trim_empty_iff is_ws_def, simp add: json_parse_def canon_eval)

lemma json_parse_entry: "canon_parse l = Some e \<Longrightarrow> json_parse l = Some (entry_json e)"
  by (simp add: json_parse_def)

lemmas json_line_A1 = canon_line_A1(1,2) json_parse_entry [OF canon_line_A1(3)]
lemmas json_line_A2 = canon_line_A2(1,2) json_parse_entry [OF canon_line_A2(3)]
lemmas json_line_B3 = canon_line_B3(1,2) json_parse_entry [OF canon_line_B3(3)]
lemmas json_line_E2 = canon_line_E2(1,2) json_parse_entry [OF canon_line_E2(3)]

lemma decodable_AAB:
  "decodable json_parse
     (''{\"seq\":1,\"ts\":1000,\"type\":\"A\",\"payload\":null}'' @ CHR 0x0A #
      ''not json'' @ CHR 0x0A #
      ''{\"seq\":2,\"ts\":1001,\"type\":\"A\",\"payload\":null}'' @ CHR 0x0A #
      ''{\"seq\":3,\"ts\":1002,\"type\":\"B\",\"payload\":null}'' @ CHR 0x0A # []) =
   [entry_json \<lparr>seq = 1, ts = 1000, type = ''A'', payload = ()\<rparr>,
    entry_json \<lparr>seq = 2, ts = 1001, type = ''A'', payload = ()\<rparr>,
    entry_json \<lparr>seq = 3, ts = 1002, type = ''B'', payload = ()\<rparr>]"
  unfolding decodable_append_nl
    decodable_line [where parse = json_parse, OF json_line_A1]
    decodable_line [where parse = json_parse, OF json_line_A2]
    decodable_line [where parse = json_parse, OF json_line_B3]
    decodable_junk [where parse = json_parse, OF canon_line_junk(1,3)]
  by simp


lemma decodable_A2_A1:
  "decodable json_parse
     (''{\"seq\":2,\"ts\":1001,\"type\":\"A\",\"payload\":null}'' @ CHR 0x0A #
      ''{\"seq\":1,\"ts\":1000,\"type\":\"A\",\"payload\":null}'' @ CHR 0x0A # []) =
   [entry_json \<lparr>seq = 2, ts = 1001, type = ''A'', payload = ()\<rparr>,
    entry_json \<lparr>seq = 1, ts = 1000, type = ''A'', payload = ()\<rparr>]"
  unfolding decodable_append_nl
    decodable_line [where parse = json_parse, OF json_line_A1]
    decodable_line [where parse = json_parse, OF json_line_A2]
  by simp

lemma decodable_A1_E2:
  "decodable json_parse
     (''{\"seq\":1,\"ts\":1000,\"type\":\"A\",\"payload\":null}'' @ CHR 0x0A #
      ''{\"seq\":2,\"ts\":1001,\"type\":\"\",\"payload\":null}'' @ CHR 0x0A # []) =
   [entry_json \<lparr>seq = 1, ts = 1000, type = ''A'', payload = ()\<rparr>,
    entry_json \<lparr>seq = 2, ts = 1001, type = [], payload = ()\<rparr>]"
  unfolding decodable_append_nl
    decodable_line [where parse = json_parse, OF json_line_A1]
    decodable_line [where parse = json_parse, OF json_line_E2]
  by simp

lemma decodable_5_A1:
  "decodable json_parse
     (''5'' @ CHR 0x0A #
      ''{\"seq\":1,\"ts\":1000,\"type\":\"A\",\"payload\":null}'' @ CHR 0x0A # []) =
   [JNumber (Finite 5), entry_json \<lparr>seq = 1, ts = 1000, type = ''A'', payload = ()\<rparr>]"
  unfolding decodable_append_nl
    decodable_line [where parse = json_parse, OF json_line_A1]
    decodable_line [where parse = json_parse, OF canon_line_5]
  by simp

lemmas json_eval = entry_json_def seq_of_def eligible_def kept_def


theorem read_nonpositive_limit_witness:
  "read json_parse no_coercion
     (ReadOk (''{\"seq\":1,\"ts\":1000,\"type\":\"A\",\"payload\":null}'' @ CHR 0x0A #
              ''not json'' @ CHR 0x0A #
              ''{\"seq\":2,\"ts\":1001,\"type\":\"A\",\"payload\":null}'' @ CHR 0x0A #
              ''{\"seq\":3,\"ts\":1002,\"type\":\"B\",\"payload\":null}'' @ CHR 0x0A # []))
     \<lparr>opt_afterSeq = Some (Finite 1), opt_limit = Some (Finite 0), opt_type = None\<rparr> =
     Inr [entry_json \<lparr>seq = 2, ts = 1001, type = ''A'', payload = ()\<rparr>]"
proof -
  let ?opts = "\<lparr>opt_afterSeq = Some (Finite 1), opt_limit = Some (Finite 0), opt_type = None\<rparr>"
  let ?raw = "''{\"seq\":1,\"ts\":1000,\"type\":\"A\",\"payload\":null}'' @ CHR 0x0A #
              ''not json'' @ CHR 0x0A #
              ''{\"seq\":2,\"ts\":1001,\"type\":\"A\",\"payload\":null}'' @ CHR 0x0A #
              ''{\"seq\":3,\"ts\":1002,\"type\":\"B\",\"payload\":null}'' @ CHR 0x0A # []"
  have f: "filter (eligible (after_seq (opt_afterSeq ?opts)) (opt_type ?opts))
              (decodable json_parse ?raw) =
           [entry_json \<lparr>seq = 2, ts = 1001, type = ''A'', payload = ()\<rparr>,
            entry_json \<lparr>seq = 3, ts = 1002, type = ''B'', payload = ()\<rparr>]"
    unfolding decodable_AAB by (simp add: json_eval)
  have h1: "opt_limit ?opts = Some (Finite 0)" by simp
  have h2: "nonpositive (Finite 0)" by simp
  have h3: "opt_afterSeq ?opts \<noteq> Some NaN" by simp
  have h4: "opt_type ?opts \<noteq> Some []" by simp
  have h5: "records_only json_parse ?raw"
    unfolding records_only_def decodable_AAB by (simp add: json_eval)
  have h6: "filter (eligible (after_seq (opt_afterSeq ?opts)) (opt_type ?opts))
              (decodable json_parse ?raw) \<noteq> []"
    unfolding f by simp
  have "read json_parse no_coercion (ReadOk ?raw) ?opts =
     Inr [hd (filter (eligible (after_seq (opt_afterSeq ?opts)) (opt_type ?opts))
                (decodable json_parse ?raw))]"
    using h1 h2 h3 h4 h5 h6 by (rule read_nonpositive_limit)
  then show ?thesis unfolding f by simp
qed


text \<open>
  The other inputs on which \<^verbatim>\<open>read\<close> departs from the words of claim C3, each of them
  left out of the amended claim. A line that is JSON and no record is returned: the test
  \<^verbatim>\<open>entry.seq <= afterSeq\<close> is false when \<^verbatim>\<open>entry.seq\<close> is \<^verbatim>\<open>undefined\<close>. A limit that is no
  whole number is passed by one. The empty string as type filters nothing. With
  \<^verbatim>\<open>NaN\<close> for \<^verbatim>\<open>afterSeq\<close> every record is returned.
\<close>

lemma read_returns_non_record:
  "read json_parse no_coercion
     (ReadOk (''5'' @ CHR 0x0A #
              ''{\"seq\":1,\"ts\":1000,\"type\":\"A\",\"payload\":null}'' @ CHR 0x0A # []))
     no_opts =
     Inr [JNumber (Finite 5), entry_json \<lparr>seq = 1, ts = 1000, type = ''A'', payload = ()\<rparr>]"
  unfolding read_ReadOk decodable_5_A1 by (simp add: no_opts_def json_eval)

lemma read_fractional_limit:
  "read json_parse no_coercion
     (ReadOk (''{\"seq\":1,\"ts\":1000,\"type\":\"A\",\"payload\":null}'' @ CHR 0x0A #
              ''not json'' @ CHR 0x0A #
              ''{\"seq\":2,\"ts\":1001,\"type\":\"A\",\"payload\":null}'' @ CHR 0x0A #
              ''{\"seq\":3,\"ts\":1002,\"type\":\"B\",\"payload\":null}'' @ CHR 0x0A # []))
     \<lparr>opt_afterSeq = None, opt_limit = Some (Finite (3 / 2)), opt_type = None\<rparr> =
     Inr [entry_json \<lparr>seq = 1, ts = 1000, type = ''A'', payload = ()\<rparr>,
          entry_json \<lparr>seq = 2, ts = 1001, type = ''A'', payload = ()\<rparr>]"
proof -
  have "\<lceil>3 / 2 :: rat\<rceil> = 2" by (simp add: ceiling_eq_iff)
  then show ?thesis
    unfolding read_ReadOk decodable_AAB by (simp add: json_eval)
qed

lemma read_empty_type:
  "read json_parse no_coercion
     (ReadOk (''{\"seq\":1,\"ts\":1000,\"type\":\"A\",\"payload\":null}'' @ CHR 0x0A #
              ''{\"seq\":2,\"ts\":1001,\"type\":\"\",\"payload\":null}'' @ CHR 0x0A # []))
     \<lparr>opt_afterSeq = None, opt_limit = None, opt_type = Some []\<rparr> =
     Inr [entry_json \<lparr>seq = 1, ts = 1000, type = ''A'', payload = ()\<rparr>,
          entry_json \<lparr>seq = 2, ts = 1001, type = [], payload = ()\<rparr>]"
  unfolding read_ReadOk decodable_A1_E2 by (simp add: json_eval)

lemma read_afterSeq_NaN:
  "read json_parse no_coercion
     (ReadOk (''{\"seq\":2,\"ts\":1001,\"type\":\"A\",\"payload\":null}'' @ CHR 0x0A #
              ''{\"seq\":1,\"ts\":1000,\"type\":\"A\",\"payload\":null}'' @ CHR 0x0A # []))
     \<lparr>opt_afterSeq = Some NaN, opt_limit = None, opt_type = None\<rparr> =
     Inr [entry_json \<lparr>seq = 2, ts = 1001, type = ''A'', payload = ()\<rparr>,
          entry_json \<lparr>seq = 1, ts = 1000, type = ''A'', payload = ()\<rparr>]"
  unfolding read_ReadOk decodable_A2_A1 by (simp add: json_eval)

text \<open>
  Claim C10 as it is stated fails when the type given is the empty string: with a limit
  of 0, \<^verbatim>\<open>read\<close> returns the first record of the file, whose type is \<^verbatim>\<open>"A"\<close>, and the only
  eligible record, the one whose type is the empty string, is not returned.
\<close>

theorem read_nonpositive_limit_counterexample:
  "read json_parse no_coercion
     (ReadOk (''{\"seq\":1,\"ts\":1000,\"type\":\"A\",\"payload\":null}'' @ CHR 0x0A #
              ''{\"seq\":2,\"ts\":1001,\"type\":\"\",\"payload\":null}'' @ CHR 0x0A # []))
     \<lparr>opt_afterSeq = None, opt_limit = Some (Finite 0), opt_type = Some []\<rparr> =
     Inr [entry_json \<lparr>seq = 1, ts = 1000, type = ''A'', payload = ()\<rparr>] \<and>
   filter (eligible (Finite 0) (Some []))
     (decodable json_parse
        (''{\"seq\":1,\"ts\":1000,\"type\":\"A\",\"payload\":null}'' @ CHR 0x0A #
         ''{\"seq\":2,\"ts\":1001,\"type\":\"\",\"payload\":null}'' @ CHR 0x0A # [])) =
     [entry_json \<lparr>seq = 2, ts = 1001, type = [], payload = ()\<rparr>] \<and>
   entry_json \<lparr>seq = 1, ts = 1000, type = ''A'', payload = ()\<rparr> \<noteq>
   entry_json \<lparr>seq = 2, ts = 1001, type = [], payload = ()\<rparr>"
  unfolding read_ReadOk decodable_A1_E2 by (simp add: json_eval)

subsection \<open>Sets\<close>

lemma set_elems_add:
  "set_elems (set_add x s) = (if x \<in> set (set_elems s) then set_elems s else set_elems s @ [x])"
  by (simp add: set_add_def set_elems_set)

lemma set_elems_delete: "set_elems (set_delete x s) = removeAll x (set_elems s)"
proof (induction s)
  case Nil
  show ?case by (simp add: set_delete_def)
next
  case (Cons e s)
  then show ?case by (cases e) (auto simp: set_delete_def)
qed

lemma set_size_elems: "set_size s = length (set_elems s)"
proof (induction s)
  case Nil
  show ?case by (simp add: set_size_def)
next
  case (Cons e s)
  then show ?case by (cases e) (simp_all add: set_size_def)
qed

lemma set_size_zero: "set_size s = 0 \<longleftrightarrow> set_elems s = []"
  by (simp add: set_size_elems)

lemma distinct_set_add: "distinct (set_elems s) \<Longrightarrow> distinct (set_elems (set_add x s))"
  by (simp add: set_elems_add)

lemma distinct_set_delete: "distinct (set_elems s) \<Longrightarrow> distinct (set_elems (set_delete x s))"
  by (simp add: set_elems_delete distinct_removeAll)

lemma set_delete_absent: "Some x \<notin> set s \<Longrightarrow> set_delete x s = s"
  by (induction s) (auto simp: set_delete_def)

lemma drop_set_delete: "drop n (set_delete x s) = set_delete x (drop n s)"
  by (simp add: set_delete_def drop_map)

lemma length_set_delete [simp]: "length (set_delete x s) = length s"
  by (simp add: set_delete_def)

lemma set_elems_drop_nth:
  "i < length s \<Longrightarrow> set_elems (drop i s) =
     (case s ! i of None \<Rightarrow> set_elems (drop (Suc i) s) | Some l \<Rightarrow> l # set_elems (drop (Suc i) s))"
  by (simp add: Cons_nth_drop_Suc [symmetric] split: option.splits)

lemma distinct_set_elems_drop:
  "distinct (set_elems s) \<Longrightarrow> distinct (set_elems (drop i s))"
proof -
  have "set_elems s = set_elems (take i s) @ set_elems (drop i s)"
    by (metis append_take_drop_id set_elems_append)
  then show "distinct (set_elems s) \<Longrightarrow> distinct (set_elems (drop i s))" by simp
qed

lemma later_slots_differ:
  assumes "distinct (set_elems s)" "i < length s" "s ! i = Some l"
  shows "Some l \<notin> set (drop (Suc i) s)"
proof -
  from assms(1) have "distinct (set_elems (drop i s))" by (rule distinct_set_elems_drop)
  with assms(2,3) have "l \<notin> set (set_elems (drop (Suc i) s))"
    by (simp add: set_elems_drop_nth)
  then show ?thesis by (simp add: set_elems_set)
qed

subsection \<open>Well-formed states\<close>

lemma wf_new_log: "wf_log (new_log f s)"
  by (simp add: wf_log_def new_log_def)

lemma wf_subscribe: "wf_log st \<Longrightarrow> wf_log (snd (subscribe l st))"
  by (simp add: wf_log_def subscribe_def distinct_set_add)

lemma wf_subscribeType:
  assumes "wf_log st"
  shows "wf_log (snd (subscribeType ty l st))"
proof (cases "typeListeners st ty")
  case None
  have d: "distinct (set_elems (set_add l []))" by (simp add: set_elems_add)
  from assms have fresh: "typeListeners st t \<noteq> Some (nextAddr st)" for t
    unfolding wf_log_def by (metis less_irrefl)
  from assms None d fresh show ?thesis
    unfolding wf_log_def subscribeType_def
    by (auto simp: Let_def less_Suc_eq split: if_splits)
next
  case (Some a)
  with assms show ?thesis
    unfolding wf_log_def subscribeType_def
    by (auto simp: distinct_set_add)
qed

lemma wf_call_unsub:
  assumes "wf_log st"
  shows "wf_log (call_unsub u st)"
proof (cases u)
  case (UnsubListener l)
  with assms show ?thesis by (simp add: wf_log_def distinct_set_delete)
next
  case (UnsubType ty a l)
  with assms show ?thesis
    unfolding wf_log_def
    by (auto simp: Let_def distinct_set_delete split: if_splits)
qed

lemma wf_close: "wf_log st \<Longrightarrow> wf_log (close st)"
  by (simp add: wf_log_def close_def)

lemma wf_do_call: "wf_log st \<Longrightarrow> wf_log (do_call c st)"
  by (cases c) (simp_all add: wf_subscribe wf_subscribeType wf_call_unsub wf_close)

lemma wf_do_calls: "wf_log st \<Longrightarrow> wf_log (do_calls cs st)"
  unfolding do_calls_def by (induction cs arbitrary: st) (simp_all add: wf_do_call)

lemma wf_delivered: "wf_log (st\<lparr>delivered := d\<rparr>) = wf_log st"
  by (simp add: wf_log_def)

lemma wf_notify: "wf_log st \<Longrightarrow> wf_log (notify beh fn entry st)"
  by (cases "snd (beh fn entry st)") (simp_all add: notify_def Let_def wf_do_calls wf_delivered)

subsection \<open>Fan-out\<close>

text \<open>
  A fan-out in which the call of the listener in a slot leaves the later slots of the
  set as they are ends, and has called the listeners of the slots from \<open>i\<close> on, once
  each and in the order of the slots.
\<close>

lemma fanout_stable:
  assumes "Inv st"
    and step: "\<And>s j l. Inv s \<Longrightarrow> j < length (deref r s) \<Longrightarrow> deref r s ! j = Some l \<Longrightarrow>
        Inv (notify beh l entry s) \<and>
        drop (Suc j) (deref r (notify beh l entry s)) = drop (Suc j) (deref r s)"
  shows "\<exists>st'. fanout beh entry r i st = Some st' \<and> Inv st' \<and>
           delivered st' = delivered st @ map (\<lambda>l. (l, entry)) (set_elems (drop i (deref r st)))"
  using assms(1)
proof (induction "length (deref r st) - i" arbitrary: i st)
  case 0
  then show ?case by (subst fanout.simps) simp
next
  case (Suc n)
  then have lt: "i < length (deref r st)" by simp
  show ?case
  proof (cases "deref r st ! i")
    case None
    have "\<exists>st'. fanout beh entry r (Suc i) st = Some st' \<and> Inv st' \<and>
           delivered st' = delivered st @ map (\<lambda>l. (l, entry)) (set_elems (drop (Suc i) (deref r st)))"
      using Suc.hyps(2) Suc.prems by (intro Suc.hyps(1)) simp_all
    moreover have "fanout beh entry r i st = fanout beh entry r (Suc i) st"
      using lt None by (subst fanout.simps) simp
    ultimately show ?thesis using lt None by (simp add: set_elems_drop_nth)
  next
    case (Some l)
    let ?st1 = "notify beh l entry st"
    from step [OF Suc.prems lt Some] have inv1: "Inv ?st1"
      and dr: "drop (Suc i) (deref r ?st1) = drop (Suc i) (deref r st)" by simp_all
    have "length (deref r ?st1) - Suc i = length (drop (Suc i) (deref r ?st1))" by simp
    also have "\<dots> = n" unfolding dr using Suc.hyps(2) by simp
    finally have m: "n = length (deref r ?st1) - Suc i" by simp
    from Suc.hyps(1) [OF m inv1] obtain st' where
      f: "fanout beh entry r (Suc i) ?st1 = Some st'" and i': "Inv st'"
      and d: "delivered st' = delivered ?st1 @
                map (\<lambda>l. (l, entry)) (set_elems (drop (Suc i) (deref r ?st1)))"
      by blast
    have "fanout beh entry r i st = fanout beh entry r (Suc i) ?st1"
      using lt Some by (subst fanout.simps) simp
    with f i' d dr lt Some show ?thesis
      by (simp add: set_elems_drop_nth notify_frame)
  qed
qed

subsection \<open>After \<^verbatim>\<open>close\<close>\<close>

lemma append_no_listener:
  assumes "set_elems (listeners st) = []" "typeListeners st = Map.empty"
  shows "\<exists>r st'. append stringify beh now wr ty pl st = Some (r, st') \<and>
           set_elems (listeners st') = [] \<and> typeListeners st' = Map.empty \<and>
           delivered st' = delivered st"
proof -
  let ?st1 = "st\<lparr>lastSeq := lastSeq st + 1\<rparr>"
  let ?e = "\<lparr>seq = lastSeq st + 1, ts = now, type = ty, payload = pl\<rparr>"
  show ?thesis
  proof (cases "stringify ?e")
    case None
    with assms show ?thesis by (simp add: append_def Let_def)
  next
    case (Some json)
    let ?st2 = "?st1\<lparr>logFile := appendFile (logFile ?st1) (json @ [CHR 0x0A]) wr\<rparr>"
    have f: "fanout beh ?e Listeners 0 ?st2 = Some ?st2"
      by (rule fanout_no_elems) (simp add: assms)
    show ?thesis
    proof (cases wr)
      case Written
      with Some f assms show ?thesis by (simp add: append_def Let_def)
    next
      case (WriteFailed n)
      with Some assms show ?thesis by (simp add: append_def Let_def)
    qed
  qed
qed

lemma appends_no_listener:
  assumes "set_elems (listeners st) = []" "typeListeners st = Map.empty"
  shows "\<exists>rs st'. appends stringify beh reqs st = Some (rs, st') \<and> delivered st' = delivered st"
  using assms
proof (induction reqs arbitrary: st)
  case Nil
  show ?case by simp
next
  case (Cons req reqs)
  obtain now wr ty pl where req: "req = (now, wr, ty, pl)" by (cases req) auto
  from append_no_listener [OF Cons.prems, of stringify beh now wr ty pl]
  obtain r st1 where a: "append stringify beh now wr ty pl st = Some (r, st1)"
    and e: "set_elems (listeners st1) = []" "typeListeners st1 = Map.empty"
    and d: "delivered st1 = delivered st" by blast
  from Cons.IH [OF e] obtain rs st' where
    "appends stringify beh reqs st1 = Some (rs, st')" "delivered st' = delivered st1" by blast
  with a d show ?case unfolding req by simp
qed

text \<open>
  Claim C9. \<^verbatim>\<open>close()\<close> leaves the global set and the map of the per-type sets empty.
  The counter \<^verbatim>\<open>lastSeq()\<close> returns, the file and everything else in the state are what
  they were. Whatever is appended afterwards, by calls that each end, no listener is
  called: the calls the log has made are the ones it had made before \<^verbatim>\<open>close()\<close>.
\<close>

theorem close_clears_listeners_only:
  "lastSeq (close st) = lastSeq st \<and> logFile (close st) = logFile st \<and>
   heap (close st) = heap st \<and> nextAddr (close st) = nextAddr st \<and>
   delivered (close st) = delivered st \<and>
   set_elems (listeners (close st)) = [] \<and> typeListeners (close st) = Map.empty \<and>
   (\<exists>rs st'. appends stringify beh reqs (close st) = Some (rs, st') \<and>
              delivered st' = delivered st)"
proof -
  have e: "set_elems (listeners (close st)) = []" "typeListeners (close st) = Map.empty"
    by (simp_all add: close_def)
  from appends_no_listener [OF e, of stringify beh reqs]
  have "\<exists>rs st'. appends stringify beh reqs (close st) = Some (rs, st') \<and>
              delivered st' = delivered st"
    by (simp add: close_def)
  with e show ?thesis by (simp add: close_def)
qed

subsection \<open>Delivery\<close>

lemma notify_no_calls:
  assumes "fst (beh l entry s) = []"
  shows "notify beh l entry s = s\<lparr>delivered := delivered s @ [(l, entry)]\<rparr>"
  using assms by (cases "snd (beh l entry s)") (simp_all add: notify_def Let_def do_calls_def)

lemma fanout_no_calls:
  assumes "\<forall>l s. fst (beh l entry s) = []"
  shows "fanout beh entry r i st =
     Some (st\<lparr>delivered := delivered st @ map (\<lambda>l. (l, entry)) (set_elems (drop i (deref r st)))\<rparr>)"
proof -
  let ?Inv = "\<lambda>s. s = st\<lparr>delivered := delivered s\<rparr>"
  have step: "?Inv (notify beh l entry s) \<and>
        drop (Suc j) (deref r (notify beh l entry s)) = drop (Suc j) (deref r s)"
    if "?Inv s" for s j l
  proof -
    have n: "notify beh l entry s = s\<lparr>delivered := delivered s @ [(l, entry)]\<rparr>"
      using assms by (intro notify_no_calls) simp
    have "deref r (s\<lparr>delivered := delivered s @ [(l, entry)]\<rparr>) = deref r s" by (cases r) simp_all
    moreover have "s\<lparr>delivered := delivered s @ [(l, entry)]\<rparr> =
        st\<lparr>delivered := delivered s @ [(l, entry)]\<rparr>"
      by (subst that) simp
    ultimately show ?thesis unfolding n by simp
  qed
  have "?Inv st" by simp
  from fanout_stable [where Inv = ?Inv and st = st and r = r and beh = beh and entry = entry
      and i = i, OF this step]
  obtain st' where f: "fanout beh entry r i st = Some st'" and i: "st' = st\<lparr>delivered := delivered st'\<rparr>"
    and d: "delivered st' = delivered st @ map (\<lambda>l. (l, entry)) (set_elems (drop i (deref r st)))"
    by blast
  from i d have "st' = st\<lparr>delivered := delivered st @ map (\<lambda>l. (l, entry)) (set_elems (drop i (deref r st)))\<rparr>"
    by simp
  with f show ?thesis by simp
qed

lemmas registry_eval = subscribe_def subscribeType_def new_log_def set_add_def Let_def

theorem close_clears_listeners_only_witness:
  "lastSeq (close log_12_A31) = 0 \<and> logFile (close log_12_A31) = None \<and>
   set_elems (listeners log_12_A31) = [1, 2] \<and>
   set_elems (listeners (close log_12_A31)) = [] \<and>
   typeListeners (close log_12_A31) = Map.empty \<and>
   (\<exists>rs st'. appends canon_stringify quiet [(1000, Written, ''A'', ())] (close log_12_A31)
        = Some (rs, st') \<and> delivered st' = [])"
proof -
  note th = close_clears_listeners_only [of log_12_A31 canon_stringify quiet
      "[(1000, Written, ''A'', ())]"]
  have d: "delivered log_12_A31 = []" "lastSeq log_12_A31 = 0" "logFile log_12_A31 = None"
    "set_elems (listeners log_12_A31) = [1, 2]"
    by (simp_all add: log_12_A31_def registry_eval)
  from th d show ?thesis by simp
qed

lemma append_no_calls:
  assumes "stringify \<lparr>seq = lastSeq st + 1, ts = now, type = ty, payload = pl\<rparr> = Some json"
    and "\<forall>l s. fst (beh l \<lparr>seq = lastSeq st + 1, ts = now, type = ty, payload = pl\<rparr> s) = []"
  shows "append stringify beh now Written ty pl st =
     Some (Inr \<lparr>seq = lastSeq st + 1, ts = now, type = ty, payload = pl\<rparr>,
           st\<lparr>lastSeq := lastSeq st + 1,
              logFile := Some (content (logFile st) @ json @ [CHR 0x0A]),
              delivered := delivered st @
                map (\<lambda>l. (l, \<lparr>seq = lastSeq st + 1, ts = now, type = ty, payload = pl\<rparr>))
                  (set_elems (listeners st) @ type_elems st ty)\<rparr>)"
proof -
  let ?e = "\<lparr>seq = lastSeq st + 1, ts = now, type = ty, payload = pl\<rparr>"
  let ?st2 = "st\<lparr>lastSeq := lastSeq st + 1, logFile := Some (content (logFile st) @ json @ [CHR 0x0A])\<rparr>"
  let ?st3 = "?st2\<lparr>delivered := delivered ?st2 @ map (\<lambda>l. (l, ?e)) (set_elems (drop 0 (deref Listeners ?st2)))\<rparr>"
  have f1: "fanout beh ?e Listeners 0 ?st2 = Some ?st3"
    using assms(2) by (rule fanout_no_calls)
  show ?thesis
  proof (cases "typeListeners st ty")
    case None
    with assms(1) f1 show ?thesis by (simp add: append_def Let_def type_elems_def)
  next
    case (Some tSet)
    have f2: "fanout beh ?e (TypeSet tSet) 0 ?st3 =
       Some (?st3\<lparr>delivered := delivered ?st3 @ map (\<lambda>l. (l, ?e)) (set_elems (drop 0 (deref (TypeSet tSet) ?st3)))\<rparr>)"
      using assms(2) by (rule fanout_no_calls)
    from assms(1) f1 f2 Some show ?thesis by (simp add: append_def Let_def type_elems_def)
  qed
qed

text \<open>
  Claim C6, amended. The line has been written and, while they are notified of this
  entry, the listeners make no call on the registry: no \<^verbatim>\<open>subscribe\<close>, no \<^verbatim>\<open>subscribeType\<close>,
  no call of an unsubscribe function, no \<^verbatim>\<open>close\<close>. Each of them may return or throw. Then
  \<^verbatim>\<open>append\<close> returns the entry, and the calls it has made are: every listener of the
  global set in insertion order, then every listener of the set of the entry's type,
  if there is one, in insertion order.
\<close>

theorem append_delivers_in_order:
  assumes "stringify \<lparr>seq = lastSeq st + 1, ts = now, type = ty, payload = pl\<rparr> = Some json"
    and "\<forall>l s. fst (beh l \<lparr>seq = lastSeq st + 1, ts = now, type = ty, payload = pl\<rparr> s) = []"
  shows "append stringify beh now Written ty pl st =
     Some (Inr \<lparr>seq = lastSeq st + 1, ts = now, type = ty, payload = pl\<rparr>,
           st\<lparr>lastSeq := lastSeq st + 1,
              logFile := Some (content (logFile st) @ json @ [CHR 0x0A]),
              delivered := delivered st @
                map (\<lambda>l. (l, \<lparr>seq = lastSeq st + 1, ts = now, type = ty, payload = pl\<rparr>))
                  (set_elems (listeners st) @ type_elems st ty)\<rparr>)"
  using assms by (rule append_no_calls)

lemma log_12_A31_eval:
  "log_12_A31 =
     \<lparr>logFile = None, lastSeq = 0, listeners = [Some 1, Some 2],
      typeListeners = [''A'' \<mapsto> 0], heap = (\<lambda>a. [])(0 := [Some 3, Some 1]), nextAddr = 1,
      delivered = []\<rparr>"
  by (simp add: log_12_A31_def registry_eval)

theorem append_delivers_in_order_witness:
  "append canon_stringify (thrower 1) 1000 Written ''A'' () log_12_A31 =
   Some (Inr \<lparr>seq = 1, ts = 1000, type = ''A'', payload = ()\<rparr>,
         log_12_A31
         \<lparr>lastSeq := 1,
          logFile := Some (''{\"seq\":1,\"ts\":1000,\"type\":\"A\",\"payload\":null}'' @ [CHR 0x0A]),
          delivered := [(1, \<lparr>seq = 1, ts = 1000, type = ''A'', payload = ()\<rparr>),
                        (2, \<lparr>seq = 1, ts = 1000, type = ''A'', payload = ()\<rparr>),
                        (3, \<lparr>seq = 1, ts = 1000, type = ''A'', payload = ()\<rparr>),
                        (1, \<lparr>seq = 1, ts = 1000, type = ''A'', payload = ()\<rparr>)]\<rparr>)"
proof -
  have l: "lastSeq log_12_A31 = 0" "logFile log_12_A31 = None" "delivered log_12_A31 = []"
    "set_elems (listeners log_12_A31) = [1, 2]" "type_elems log_12_A31 ''A'' = [3, 1]"
    by (simp_all add: log_12_A31_eval type_elems_def)
  have h1: "canon_stringify \<lparr>seq = lastSeq log_12_A31 + 1, ts = 1000, type = ''A'', payload = ()\<rparr> =
      Some ''{\"seq\":1,\"ts\":1000,\"type\":\"A\",\"payload\":null}''"
    unfolding l using canon_stringify_A1 by simp
  have h2: "\<forall>l s. fst (thrower 1 l
      \<lparr>seq = lastSeq log_12_A31 + 1, ts = 1000, type = ''A'', payload = ()\<rparr> s) = []"
    by (simp add: thrower_def)
  from append_delivers_in_order [where stringify = canon_stringify and beh = "thrower 1"
      and st = log_12_A31 and now = 1000 and ty = "''A''" and pl = "()", OF h1 h2]
  show ?thesis unfolding l by simp
qed

text \<open>
  Claim C6 as it is stated fails on an append that succeeds while a listener changes the
  sets. The listeners 1 and 2 are in the global set and the listeners 3 and 1 in the set
  of the type \<^verbatim>\<open>"A"\<close>; the listener 1, when it is notified, calls \<^verbatim>\<open>close\<close>. The append
  returns the entry, and the listener 1 is the only one that has been called.
\<close>

theorem close_during_fanout_counterexample:
  "set_elems (listeners log_12_A31) = [1, 2] \<and> type_elems log_12_A31 ''A'' = [3, 1] \<and>
   (\<exists>st'. append canon_stringify (caller 1 [Close]) 1000 Written ''A'' () log_12_A31 =
        Some (Inr \<lparr>seq = 1, ts = 1000, type = ''A'', payload = ()\<rparr>, st') \<and>
      delivered st' = [(1, \<lparr>seq = 1, ts = 1000, type = ''A'', payload = ()\<rparr>)])"
  unfolding log_12_A31_eval
  by (simp add: append_def Let_def fanout.simps notify_def do_calls_def close_def set_clear_def
      canon_stringify_A1 caller_def type_elems_def)

subsection \<open>Unsubscribing\<close>

lemma set_delete_idem [simp]: "set_delete x (set_delete x s) = set_delete x s"
  by (simp add: set_delete_def)

lemma call_unsub_idem: "call_unsub u (call_unsub u s) = call_unsub u s"
proof (cases u)
  case (UnsubListener l)
  then show ?thesis by simp
next
  case (UnsubType ty a l)
  show ?thesis
  proof (cases "set_size (set_delete l (heap s a)) = 0")
    case True
    then show ?thesis unfolding UnsubType by (simp add: Let_def)
  next
    case False
    then show ?thesis unfolding UnsubType by (simp add: Let_def)
  qed
qed

lemma removeAll_add: "removeAll l (set_elems (set_add l s)) = removeAll l (set_elems s)"
  by (simp add: set_elems_add)

lemma subscribeType_returns:
  "\<exists>a. fst (subscribeType ty l st) = UnsubType ty a l \<and>
       typeListeners (snd (subscribeType ty l st)) ty = Some a"
  by (cases "typeListeners st ty") (simp_all add: subscribeType_def Let_def)

lemma call_unsub_type:
  assumes "wf_log s" and "typeListeners s ty = Some a"
  shows "type_elems (call_unsub (UnsubType ty a l) s) ty = removeAll l (type_elems s ty)"
    and "type_elems (call_unsub (UnsubType ty a l) s) ty = [] \<Longrightarrow>
         typeListeners (call_unsub (UnsubType ty a l) s) ty = None"
    and "type_elems (call_unsub (UnsubType ty a l) s) ty \<noteq> [] \<Longrightarrow>
         typeListeners (call_unsub (UnsubType ty a l) s) ty = Some a"
    and "t \<noteq> ty \<Longrightarrow>
         type_elems (call_unsub (UnsubType ty a l) s) t = type_elems s t \<and>
         typeListeners (call_unsub (UnsubType ty a l) s) t = typeListeners s t"
    and "listeners (call_unsub (UnsubType ty a l) s) = listeners s"
proof -
  let ?s2 = "call_unsub (UnsubType ty a l) s"
  show "listeners ?s2 = listeners s" by (simp add: Let_def)
  show e: "type_elems ?s2 ty = removeAll l (type_elems s ty)"
    using assms(2) by (simp add: Let_def type_elems_def set_size_zero set_elems_delete)
  show "typeListeners ?s2 ty = None" if "type_elems ?s2 ty = []"
    using that assms(2)
    by (simp add: Let_def type_elems_def set_size_zero split: if_splits)
  show "typeListeners ?s2 ty = Some a" if "type_elems ?s2 ty \<noteq> []"
    using that assms(2)
    by (simp add: Let_def type_elems_def set_size_zero split: if_splits)
  show "type_elems ?s2 t = type_elems s t \<and> typeListeners ?s2 t = typeListeners s t"
    if t: "t \<noteq> ty"
  proof -
    from assms t have "typeListeners s t \<noteq> Some a"
      unfolding wf_log_def by metis
    with t show ?thesis
      by (cases "typeListeners s t") (auto simp: Let_def type_elems_def)
  qed
qed

text \<open>
  Claim C7, amended. The sets hold listener functions, and an unsubscribe function
  deletes the function it was created for, whichever call registered it.
  The function \<^verbatim>\<open>subscribe\<close> returns deletes its listener from the global set, in whatever
  state it is called, and changes nothing else. The function \<^verbatim>\<open>subscribeType\<close> returns
  holds the set the type has after that call. Called in a well-formed state in which
  this set is still the set of its type, it leaves the type with the listeners it had
  without its own, removes the type from the map when no listener is left for it and
  leaves it there otherwise, and leaves the other types and the global set as they
  were. Calling an unsubscribe function again at once changes nothing more.
\<close>

theorem unsubscribe_removes_its_listener:
  "fst (subscribe l st) = UnsubListener l \<and>
   set_elems (listeners (call_unsub (UnsubListener l) s)) = removeAll l (set_elems (listeners s)) \<and>
   typeListeners (call_unsub (UnsubListener l) s) = typeListeners s \<and>
   heap (call_unsub (UnsubListener l) s) = heap s \<and>
   call_unsub u (call_unsub u s) = call_unsub u s \<and>
   (\<exists>tSet. fst (subscribeType ty l st) = UnsubType ty tSet l \<and>
       typeListeners (snd (subscribeType ty l st)) ty = Some tSet) \<and>
   (wf_log s \<and> typeListeners s ty = Some a \<longrightarrow>
      type_elems (call_unsub (UnsubType ty a l) s) ty = removeAll l (type_elems s ty) \<and>
      (type_elems (call_unsub (UnsubType ty a l) s) ty = [] \<longrightarrow>
         typeListeners (call_unsub (UnsubType ty a l) s) ty = None) \<and>
      (type_elems (call_unsub (UnsubType ty a l) s) ty \<noteq> [] \<longrightarrow>
         typeListeners (call_unsub (UnsubType ty a l) s) ty = Some a) \<and>
      (\<forall>t. t \<noteq> ty \<longrightarrow>
         type_elems (call_unsub (UnsubType ty a l) s) t = type_elems s t \<and>
         typeListeners (call_unsub (UnsubType ty a l) s) t = typeListeners s t) \<and>
      listeners (call_unsub (UnsubType ty a l) s) = listeners s)"
proof (intro conjI impI allI)
  show "fst (subscribe l st) = UnsubListener l" by (simp add: subscribe_def)
  show "set_elems (listeners (call_unsub (UnsubListener l) s)) = removeAll l (set_elems (listeners s))"
    by (simp add: set_elems_delete)
  show "typeListeners (call_unsub (UnsubListener l) s) = typeListeners s" by simp
  show "heap (call_unsub (UnsubListener l) s) = heap s" by simp
  show "call_unsub u (call_unsub u s) = call_unsub u s" by (rule call_unsub_idem)
  show "\<exists>tSet. fst (subscribeType ty l st) = UnsubType ty tSet l \<and>
       typeListeners (snd (subscribeType ty l st)) ty = Some tSet"
    by (rule subscribeType_returns)
next
  assume h: "wf_log s \<and> typeListeners s ty = Some a"
  then have w: "wf_log s" and m: "typeListeners s ty = Some a" by simp_all
  show "type_elems (call_unsub (UnsubType ty a l) s) ty = removeAll l (type_elems s ty)"
    using w m by (rule call_unsub_type(1))
  show "listeners (call_unsub (UnsubType ty a l) s) = listeners s"
    using w m by (rule call_unsub_type(5))
  show "typeListeners (call_unsub (UnsubType ty a l) s) ty = None"
    if "type_elems (call_unsub (UnsubType ty a l) s) ty = []"
    using w m that by (rule call_unsub_type(2))
  show "typeListeners (call_unsub (UnsubType ty a l) s) ty = Some a"
    if "type_elems (call_unsub (UnsubType ty a l) s) ty \<noteq> []"
    using w m that by (rule call_unsub_type(3))
  show "type_elems (call_unsub (UnsubType ty a l) s) t = type_elems s t"
    if "t \<noteq> ty" for t
    using call_unsub_type(4) [OF w m that] by simp
  show "typeListeners (call_unsub (UnsubType ty a l) s) t = typeListeners s t"
    if "t \<noteq> ty" for t
    using call_unsub_type(4) [OF w m that] by simp
qed

lemma wf_log_12_A31: "wf_log log_12_A31"
  unfolding log_12_A31_def by (intro wf_subscribeType wf_subscribe wf_new_log)

lemmas set_eval = set_delete_def set_size_def set_clear_def

theorem unsubscribe_removes_its_listener_witness:
  "wf_log log_12_A31 \<and> typeListeners log_12_A31 ''A'' = Some 0 \<and>
   type_elems log_12_A31 ''A'' = [3, 1] \<and>
   type_elems (call_unsub (UnsubType ''A'' 0 3) log_12_A31) ''A'' = [1] \<and>
   typeListeners (call_unsub (UnsubType ''A'' 0 3) log_12_A31) ''A'' = Some 0 \<and>
   listeners (call_unsub (UnsubType ''A'' 0 3) log_12_A31) = listeners log_12_A31 \<and>
   set_elems (listeners (call_unsub (UnsubListener 2) log_12_A31)) = [1] \<and>
   call_unsub (UnsubType ''A'' 0 3) (call_unsub (UnsubType ''A'' 0 3) log_12_A31) =
     call_unsub (UnsubType ''A'' 0 3) log_12_A31"
proof -
  have te: "type_elems log_12_A31 ''A'' = [3, 1]" "typeListeners log_12_A31 ''A'' = Some 0"
    "set_elems (listeners log_12_A31) = [1, 2]"
    by (simp_all add: log_12_A31_eval type_elems_def)
  note wf = wf_log_12_A31
  from wf te(2) have h: "wf_log log_12_A31 \<and> typeListeners log_12_A31 ''A'' = Some 0"
    by (rule conjI)
  note th = unsubscribe_removes_its_listener [where st = log_12_A31 and ty = "''A''" and l = 3
      and s = log_12_A31 and a = 0 and u = "UnsubType ''A'' 0 3"]
  note ty = th [THEN conjunct2, THEN conjunct2, THEN conjunct2, THEN conjunct2, THEN conjunct2,
      THEN conjunct2, THEN mp, OF h]
  note g2 = unsubscribe_removes_its_listener [where st = log_12_A31 and ty = "''A''" and l = 2
      and s = log_12_A31 and a = 0 and u = "UnsubType ''A'' 0 3", THEN conjunct2, THEN conjunct1]
  have c1: "type_elems (call_unsub (UnsubType ''A'' 0 3) log_12_A31) ''A'' = [1]"
    using ty [THEN conjunct1] te by simp
  have c2: "typeListeners (call_unsub (UnsubType ''A'' 0 3) log_12_A31) ''A'' = Some 0"
    using ty [THEN conjunct2, THEN conjunct2, THEN conjunct1] c1 by simp
  have c3: "listeners (call_unsub (UnsubType ''A'' 0 3) log_12_A31) = listeners log_12_A31"
    using ty [THEN conjunct2, THEN conjunct2, THEN conjunct2, THEN conjunct2] .
  have c4: "set_elems (listeners (call_unsub (UnsubListener 2) log_12_A31)) = [1]"
    using g2 te by simp
  have c5: "call_unsub (UnsubType ''A'' 0 3) (call_unsub (UnsubType ''A'' 0 3) log_12_A31) =
     call_unsub (UnsubType ''A'' 0 3) log_12_A31"
    using th [THEN conjunct2, THEN conjunct2, THEN conjunct2, THEN conjunct2, THEN conjunct1] .
  from wf te(2) te(1) c1 c2 c3 c4 c5 show ?thesis by blast
qed

text \<open>
  Claim C7 as it is stated fails: the sets hold the listener function, not the call that
  registered it. After \<^verbatim>\<open>subscribe(f)\<close>, a call of the function it returned, and
  \<^verbatim>\<open>subscribe(f)\<close> by another call, a second call of that first function deletes the
  listener the other call registered.
\<close>

theorem unsubscribe_again_counterexample:
  "fst (subscribe 5 (new_log None 0 :: unit EventLog)) = UnsubListener 5 \<and>
   set_elems (listeners resubscribed) = [5] \<and>
   set_elems (listeners (call_unsub (UnsubListener 5) resubscribed)) = []"
  by (simp add: resubscribed_def registry_eval set_eval)

text \<open>
  The function \<^verbatim>\<open>subscribeType\<close> returns keeps the set it was created with. When that set
  has become empty and has been taken out of the map, and the type has got a new set
  since, a further call finds its old set empty and deletes the type from the map,
  together with the listeners of the new set.
\<close>

lemma stale_unsubscribe_drops_new_set:
  "fst (subscribeType ''A'' 1 (new_log None 0 :: unit EventLog)) = UnsubType ''A'' 0 1 \<and>
   type_elems retyped ''A'' = [2] \<and>
   type_elems (call_unsub (UnsubType ''A'' 0 1) retyped) ''A'' = [] \<and>
   append canon_stringify quiet 1000 Written ''A'' () (call_unsub (UnsubType ''A'' 0 1) retyped) =
     Some (Inr \<lparr>seq = 1, ts = 1000, type = ''A'', payload = ()\<rparr>,
           (call_unsub (UnsubType ''A'' 0 1) retyped)
           \<lparr>lastSeq := 1,
            logFile := Some (''{\"seq\":1,\"ts\":1000,\"type\":\"A\",\"payload\":null}'' @ [CHR 0x0A]),
            delivered := []\<rparr>)"
proof -
  let ?st = "call_unsub (UnsubType ''A'' 0 1) retyped"
  have l: "lastSeq ?st = 0" "logFile ?st = None" "delivered ?st = []"
    "set_elems (listeners ?st) = []" "type_elems ?st ''A'' = []"
    by (simp_all add: retyped_def registry_eval set_eval type_elems_def)
  have h1: "canon_stringify \<lparr>seq = lastSeq ?st + 1, ts = 1000, type = ''A'', payload = ()\<rparr> =
      Some ''{\"seq\":1,\"ts\":1000,\"type\":\"A\",\"payload\":null}''"
    unfolding l using canon_stringify_A1 by simp
  have h2: "\<forall>l s. fst (quiet l \<lparr>seq = lastSeq ?st + 1, ts = 1000, type = ''A'', payload = ()\<rparr> s) = []"
    by (simp add: quiet_def)
  have a: "append canon_stringify quiet 1000 Written ''A'' () ?st =
     Some (Inr \<lparr>seq = 1, ts = 1000, type = ''A'', payload = ()\<rparr>,
           ?st\<lparr>lastSeq := 1,
            logFile := Some (''{\"seq\":1,\"ts\":1000,\"type\":\"A\",\"payload\":null}'' @ [CHR 0x0A]),
            delivered := []\<rparr>)"
    using append_no_calls [where stringify = canon_stringify and beh = quiet
      and st = ?st and now = 1000 and ty = "''A''" and pl = "()", OF h1 h2]
    unfolding l by simp
  have b: "fst (subscribeType ''A'' 1 (new_log None 0 :: unit EventLog)) = UnsubType ''A'' 0 1"
    by (simp add: registry_eval)
  have c: "type_elems retyped ''A'' = [2]"
    by (simp add: retyped_def registry_eval set_eval type_elems_def)
  from a b c l(5) show ?thesis by blast
qed

text \<open>
  The same after \<^verbatim>\<open>close\<close>, which empties the map and leaves the sets of the types as they
  are: the function \<^verbatim>\<open>subscribeType\<close> returned before the \<^verbatim>\<open>close\<close> still finds its listener
  in its old set, deletes it there, and deletes from the map the set the type has got
  since, with the listener 2 in it.
\<close>

lemma stale_unsubscribe_after_close:
  "fst (subscribeType ''A'' 1 (new_log None 0 :: unit EventLog)) = UnsubType ''A'' 0 1 \<and>
   wf_log closed_retyped \<and>
   type_elems closed_retyped ''A'' = [2] \<and>
   type_elems (call_unsub (UnsubType ''A'' 0 1) closed_retyped) ''A'' = []"
proof -
  have "wf_log closed_retyped"
    unfolding closed_retyped_def by (intro wf_subscribeType wf_close wf_new_log)
  then show ?thesis
    by (simp add: closed_retyped_def registry_eval set_eval close_def type_elems_def)
qed

subsection \<open>Listeners that unsubscribe themselves\<close>

lemma notify_do_calls:
  "notify beh l e s = do_calls (fst (beh l e s)) (s\<lparr>delivered := delivered s @ [(l, e)]\<rparr>)"
  by (cases "snd (beh l e s)") (simp_all add: notify_def Let_def)

lemma do_calls_Cons: "do_calls (c # cs) s = do_calls cs (do_call c s)"
  by (simp add: do_calls_def)

lemma do_calls_Nil [simp]: "do_calls [] s = s"
  by (simp add: do_calls_def)

lemma self_unsub_listeners:
  assumes "\<forall>c \<in> set cs. c = Unsubscribe (UnsubListener l) \<or>
      (\<exists>t b. c = Unsubscribe (UnsubType t b l) \<and> (b = a \<longleftrightarrow> t = ty))"
  shows "listeners (do_calls cs s) = listeners s \<or>
         listeners (do_calls cs s) = set_delete l (listeners s)"
  using assms
proof (induction cs arbitrary: s)
  case Nil
  show ?case by simp
next
  case (Cons c cs)
  then have c: "c = Unsubscribe (UnsubListener l) \<or>
      (\<exists>t b. c = Unsubscribe (UnsubType t b l) \<and> (b = a \<longleftrightarrow> t = ty))"
    and cs: "\<forall>c \<in> set cs. c = Unsubscribe (UnsubListener l) \<or>
      (\<exists>t b. c = Unsubscribe (UnsubType t b l) \<and> (b = a \<longleftrightarrow> t = ty))"
    by simp_all
  from c have s1: "listeners (do_call c s) = listeners s \<or>
      listeners (do_call c s) = set_delete l (listeners s)"
    by (auto simp: Let_def)
  from Cons.IH [OF cs, of "do_call c s"] s1 show ?case
    unfolding do_calls_Cons by auto
qed

lemma self_unsub_heap:
  assumes "\<forall>c \<in> set cs. c = Unsubscribe (UnsubListener l) \<or>
      (\<exists>t b. c = Unsubscribe (UnsubType t b l) \<and> (b = a \<longleftrightarrow> t = ty))"
  shows "heap (do_calls cs s) a = heap s a \<or> heap (do_calls cs s) a = set_delete l (heap s a)"
  using assms
proof (induction cs arbitrary: s)
  case Nil
  show ?case by simp
next
  case (Cons c cs)
  then have c: "c = Unsubscribe (UnsubListener l) \<or>
      (\<exists>t b. c = Unsubscribe (UnsubType t b l) \<and> (b = a \<longleftrightarrow> t = ty))"
    and cs: "\<forall>c \<in> set cs. c = Unsubscribe (UnsubListener l) \<or>
      (\<exists>t b. c = Unsubscribe (UnsubType t b l) \<and> (b = a \<longleftrightarrow> t = ty))"
    by simp_all
  from c have s1: "heap (do_call c s) a = heap s a \<or>
      heap (do_call c s) a = set_delete l (heap s a)"
    by (auto simp: Let_def)
  from Cons.IH [OF cs, of "do_call c s"] s1 show ?case
    unfolding do_calls_Cons by auto
qed

lemma set_elems_delete_empty: "set_elems s = [] \<Longrightarrow> set_elems (set_delete l s) = []"
  by (simp add: set_elems_delete)

lemma self_unsub_map:
  assumes "\<forall>c \<in> set cs. c = Unsubscribe (UnsubListener l) \<or>
      (\<exists>t b. c = Unsubscribe (UnsubType t b l) \<and> (b = a \<longleftrightarrow> t = ty))"
  shows "typeListeners (do_calls cs s) ty = typeListeners s ty \<or>
         (typeListeners (do_calls cs s) ty = None \<and>
          set_elems (heap (do_calls cs s) a) = [])"
  using assms
proof (induction cs arbitrary: s)
  case Nil
  show ?case by simp
next
  case (Cons c cs)
  then have c: "c = Unsubscribe (UnsubListener l) \<or>
      (\<exists>t b. c = Unsubscribe (UnsubType t b l) \<and> (b = a \<longleftrightarrow> t = ty))"
    and cs: "\<forall>c \<in> set cs. c = Unsubscribe (UnsubListener l) \<or>
      (\<exists>t b. c = Unsubscribe (UnsubType t b l) \<and> (b = a \<longleftrightarrow> t = ty))"
    by simp_all
  let ?s1 = "do_call c s"
  from c have s1: "typeListeners ?s1 ty = typeListeners s ty \<or>
      (typeListeners ?s1 ty = None \<and> set_elems (heap ?s1 a) = [])"
  proof
    assume "c = Unsubscribe (UnsubListener l)"
    then show ?thesis by simp
  next
    assume "\<exists>t b. c = Unsubscribe (UnsubType t b l) \<and> (b = a \<longleftrightarrow> t = ty)"
    then obtain t b where u: "c = Unsubscribe (UnsubType t b l)" and tb: "b = a \<longleftrightarrow> t = ty"
      by blast
    show ?thesis
    proof (cases "set_elems (set_delete l (heap s b)) = []")
      case True
      with tb show ?thesis unfolding u by (auto simp: Let_def set_size_zero)
    next
      case False
      then show ?thesis unfolding u by (simp add: Let_def set_size_zero)
    qed
  qed
  note IH = Cons.IH [OF cs, of ?s1]
  note hp = self_unsub_heap [OF cs, of ?s1]
  show ?case
  proof (cases "typeListeners ?s1 ty = typeListeners s ty")
    case True
    with IH show ?thesis unfolding do_calls_Cons by auto
  next
    case False
    with s1 have m: "typeListeners ?s1 ty = None"
      and e: "set_elems (heap ?s1 a) = []" by auto
    from hp e have e': "set_elems (heap (do_calls cs ?s1) a) = []"
      by (auto simp: set_elems_delete_empty)
    from IH m e' show ?thesis unfolding do_calls_Cons by auto
  qed
qed

lemma drop_after_own_slot:
  assumes "distinct (set_elems s)" "j < length s" "s ! j = Some l"
    and "s' = s \<or> s' = set_delete l s"
  shows "drop (Suc j) s' = drop (Suc j) s"
proof -
  from later_slots_differ [OF assms(1-3)]
  have "set_delete l (drop (Suc j) s) = drop (Suc j) s" by (rule set_delete_absent)
  with assms(4) show ?thesis by (auto simp: drop_set_delete)
qed

lemma distinct_after_own_delete:
  assumes "distinct (set_elems s)" "s' = s \<or> s' = set_delete l s"
  shows "distinct (set_elems s')"
  using assms by (auto simp: distinct_set_delete)

lemma global_phase:
  fixes e :: "'p EventLogEntry" and start :: "'p EventLog"
  assumes allowed: "\<forall>l s c. c \<in> set (fst (beh l e s)) \<longrightarrow>
        c = Unsubscribe (UnsubListener l) \<or>
      (\<exists>t b. c = Unsubscribe (UnsubType t b l) \<and> (b = a \<longleftrightarrow> t = ty))"
    and dl: "distinct (set_elems (listeners start))" and dh: "distinct (set_elems (heap start a))"
  shows "\<exists>st3. fanout beh e Listeners 0 start = Some st3 \<and>
           delivered st3 = delivered start @ map (\<lambda>l. (l, e)) (set_elems (listeners start)) \<and>
           distinct (set_elems (heap st3 a)) \<and>
           (typeListeners st3 ty = typeListeners start ty \<or>
              (typeListeners st3 ty = None \<and> set_elems (heap st3 a) = [])) \<and>
           set (set_elems (heap st3 a)) \<subseteq> set (set_elems (heap start a)) \<and>
           (\<forall>x \<in> set (set_elems (heap start a)).
              x \<in> set (set_elems (heap st3 a)) \<or> x \<in> set (set_elems (listeners start)))"
proof -
  define Inv where "Inv = (\<lambda>s :: 'p EventLog.
      distinct (set_elems (listeners s)) \<and> distinct (set_elems (heap s a)) \<and>
      (typeListeners s ty = typeListeners start ty \<or>
         (typeListeners s ty = None \<and> set_elems (heap s a) = [])) \<and>
      set (set_elems (heap s a)) \<subseteq> set (set_elems (heap start a)) \<and>
      (\<exists>D. delivered s = delivered start @ D \<and>
           (\<forall>x \<in> set (set_elems (heap start a)).
              x \<in> set (set_elems (heap s a)) \<or> (x, e) \<in> set D)))"
  have init: "Inv start" unfolding Inv_def using dl dh by simp
  have step: "Inv (notify beh l e s) \<and>
        drop (Suc j) (deref Listeners (notify beh l e s)) = drop (Suc j) (deref Listeners s)"
    if inv: "Inv s" and j: "j < length (deref Listeners s)" and slot: "deref Listeners s ! j = Some l"
    for s j l
  proof -
    let ?s0 = "s\<lparr>delivered := delivered s @ [(l, e)]\<rparr>"
    let ?cs = "fst (beh l e s)"
    let ?s' = "notify beh l e s"
    have n: "?s' = do_calls ?cs ?s0" by (rule notify_do_calls)
    have al: "\<forall>c \<in> set ?cs. c = Unsubscribe (UnsubListener l) \<or>
      (\<exists>t b. c = Unsubscribe (UnsubType t b l) \<and> (b = a \<longleftrightarrow> t = ty))"
      using allowed by blast
    from self_unsub_listeners [OF al, of ?s0]
    have L: "listeners ?s' = listeners s \<or> listeners ?s' = set_delete l (listeners s)"
      unfolding n by simp
    from self_unsub_heap [OF al, of ?s0]
    have H: "heap ?s' a = heap s a \<or> heap ?s' a = set_delete l (heap s a)"
      unfolding n by simp
    from self_unsub_map [OF al, of ?s0]
    have M: "typeListeners ?s' ty = typeListeners s ty \<or>
         (typeListeners ?s' ty = None \<and> set_elems (heap ?s' a) = [])"
      unfolding n by simp
    have Dv: "delivered ?s' = delivered s @ [(l, e)]" by (simp add: notify_frame)
    from inv have i1: "distinct (set_elems (listeners s))" and i2: "distinct (set_elems (heap s a))"
      and i3: "typeListeners s ty = typeListeners start ty \<or>
         (typeListeners s ty = None \<and> set_elems (heap s a) = [])"
      and i4: "set (set_elems (heap s a)) \<subseteq> set (set_elems (heap start a))"
      unfolding Inv_def by simp_all
    from inv obtain D where D: "delivered s = delivered start @ D"
      and i5: "\<forall>x \<in> set (set_elems (heap start a)). x \<in> set (set_elems (heap s a)) \<or> (x, e) \<in> set D"
      unfolding Inv_def by blast
    have d1: "distinct (set_elems (listeners ?s'))"
      using i1 L by (rule distinct_after_own_delete)
    have d2: "distinct (set_elems (heap ?s' a))"
      using i2 H by (rule distinct_after_own_delete)
    have e0: "set_elems (heap ?s' a) = []" if "set_elems (heap s a) = []"
      using H that by (auto simp: set_elems_delete_empty)
    have m: "typeListeners ?s' ty = typeListeners start ty \<or>
         (typeListeners ?s' ty = None \<and> set_elems (heap ?s' a) = [])"
      using M i3 e0 by auto
    have sub: "set (set_elems (heap ?s' a)) \<subseteq> set (set_elems (heap start a))"
      using H i4 by (auto simp: set_elems_delete)
    have tr: "\<forall>x \<in> set (set_elems (heap start a)).
              x \<in> set (set_elems (heap ?s' a)) \<or> (x, e) \<in> set (D @ [(l, e)])"
      using H i5 by (auto simp: set_elems_delete)
    have "delivered ?s' = delivered start @ (D @ [(l, e)])" using Dv D by simp
    with tr have ex: "\<exists>D'. delivered ?s' = delivered start @ D' \<and>
           (\<forall>x \<in> set (set_elems (heap start a)).
              x \<in> set (set_elems (heap ?s' a)) \<or> (x, e) \<in> set D')" by blast
    have "drop (Suc j) (listeners ?s') = drop (Suc j) (listeners s)"
      using i1 j slot L by (intro drop_after_own_slot) simp_all
    with d1 d2 m sub ex show ?thesis unfolding Inv_def by simp
  qed
  from fanout_stable [where Inv = Inv and st = start and r = Listeners and beh = beh and entry = e
      and i = 0, OF init step]
  obtain st3 where f: "fanout beh e Listeners 0 start = Some st3" and i: "Inv st3"
    and d: "delivered st3 = delivered start @ map (\<lambda>l. (l, e)) (set_elems (listeners start))"
    by auto
  from i obtain D where D: "delivered st3 = delivered start @ D"
    and t: "\<forall>x \<in> set (set_elems (heap start a)). x \<in> set (set_elems (heap st3 a)) \<or> (x, e) \<in> set D"
    unfolding Inv_def by blast
  from D d have "D = map (\<lambda>l. (l, e)) (set_elems (listeners start))" by simp
  with t have "\<forall>x \<in> set (set_elems (heap start a)).
              x \<in> set (set_elems (heap st3 a)) \<or> x \<in> set (set_elems (listeners start))"
    by auto
  with f d i show ?thesis unfolding Inv_def by blast
qed

lemma type_phase:
  fixes e :: "'p EventLogEntry" and mid :: "'p EventLog"
  assumes allowed: "\<forall>l s c. c \<in> set (fst (beh l e s)) \<longrightarrow>
        c = Unsubscribe (UnsubListener l) \<or>
      (\<exists>t b. c = Unsubscribe (UnsubType t b l) \<and> (b = a \<longleftrightarrow> t = ty))"
    and dh: "distinct (set_elems (heap mid a))"
  shows "\<exists>st4. fanout beh e (TypeSet a) 0 mid = Some st4 \<and>
           delivered st4 = delivered mid @ map (\<lambda>l. (l, e)) (set_elems (heap mid a))"
proof -
  define Inv where "Inv = (\<lambda>s :: 'p EventLog. distinct (set_elems (heap s a)))"
  have init: "Inv mid" unfolding Inv_def using dh .
  have step: "Inv (notify beh l e s) \<and>
        drop (Suc j) (deref (TypeSet a) (notify beh l e s)) = drop (Suc j) (deref (TypeSet a) s)"
    if inv: "Inv s" and j: "j < length (deref (TypeSet a) s)"
      and slot: "deref (TypeSet a) s ! j = Some l"
    for s j l
  proof -
    let ?s0 = "s\<lparr>delivered := delivered s @ [(l, e)]\<rparr>"
    let ?cs = "fst (beh l e s)"
    let ?s' = "notify beh l e s"
    have n: "?s' = do_calls ?cs ?s0" by (rule notify_do_calls)
    have al: "\<forall>c \<in> set ?cs. c = Unsubscribe (UnsubListener l) \<or>
      (\<exists>t b. c = Unsubscribe (UnsubType t b l) \<and> (b = a \<longleftrightarrow> t = ty))"
      using allowed by blast
    from self_unsub_heap [OF al, of ?s0]
    have H: "heap ?s' a = heap s a \<or> heap ?s' a = set_delete l (heap s a)"
      unfolding n by simp
    from inv have i2: "distinct (set_elems (heap s a))" unfolding Inv_def .
    have d2: "distinct (set_elems (heap ?s' a))"
      using i2 H by (rule distinct_after_own_delete)
    have "drop (Suc j) (heap ?s' a) = drop (Suc j) (heap s a)"
      using i2 j slot H by (intro drop_after_own_slot) simp_all
    with d2 show ?thesis unfolding Inv_def by simp
  qed
  from fanout_stable [where Inv = Inv and st = mid and r = "TypeSet a" and beh = beh and entry = e
      and i = 0, OF init step]
  show ?thesis by auto
qed

subsection \<open>Fan-out while listeners subscribe listeners\<close>

lemma keeps_slots_refl: "keeps_slots l s s"
  by (simp add: keeps_slots_def)

lemma keeps_slots_trans:
  "keeps_slots l s t \<Longrightarrow> keeps_slots l t u \<Longrightarrow> keeps_slots l s u"
  unfolding keeps_slots_def by (metis le_trans less_le_trans)

lemma keeps_slots_add: "keeps_slots l s (set_add x s)"
  by (simp add: keeps_slots_def set_add_def nth_append)

lemma keeps_slots_delete: "keeps_slots l s (set_delete l s)"
  by (simp add: keeps_slots_def set_delete_def)

lemma in_set_drop_nth:
  "y \<in> set (drop k xs) \<longleftrightarrow> (\<exists>j. k \<le> j \<and> j < length xs \<and> xs ! j = y)"
proof
  assume "y \<in> set (drop k xs)"
  then obtain i where i: "i < length xs - k" "drop k xs ! i = y"
    by (auto simp: in_set_conv_nth)
  then have "k \<le> k + i \<and> k + i < length xs \<and> xs ! (k + i) = y" by simp
  then show "\<exists>j. k \<le> j \<and> j < length xs \<and> xs ! j = y" by blast
next
  assume "\<exists>j. k \<le> j \<and> j < length xs \<and> xs ! j = y"
  then obtain j where j: "k \<le> j" "j < length xs" "xs ! j = y" by blast
  then have "j - k < length (drop k xs)" "drop k xs ! (j - k) = y" by simp_all
  then show "y \<in> set (drop k xs)" by (metis nth_mem)
qed

lemma in_set_delete: "Some x \<in> set (set_delete l s) \<longleftrightarrow> Some x \<in> set s \<and> x \<noteq> l"
  by (auto simp: set_delete_def)

lemma in_set_add: "Some x \<in> set s \<Longrightarrow> Some x \<in> set (set_add y s)"
  by (simp add: set_add_def)

text \<open>One call of the listener \<open>l\<close>, on a set that has been created.\<close>

lemma do_call_keeps:
  assumes c: "c = Unsubscribe (UnsubListener l) \<or> (\<exists>t b. c = Unsubscribe (UnsubType t b l)) \<or>
      (\<exists>x. c = Subscribe x) \<or> (\<exists>t x. c = SubscribeType t x)"
    and ok: "\<forall>a. r = TypeSet a \<longrightarrow> a < nextAddr s"
  shows "keeps_slots l (deref r s) (deref r (do_call c s)) \<and>
         (\<forall>a. r = TypeSet a \<longrightarrow> a < nextAddr (do_call c s))"
proof -
  consider (ul) "c = Unsubscribe (UnsubListener l)"
    | (ut) t b where "c = Unsubscribe (UnsubType t b l)"
    | (su) x where "c = Subscribe x"
    | (st) t x where "c = SubscribeType t x"
    using c by blast
  then show ?thesis
  proof cases
    case ul
    with ok show ?thesis
      by (cases r) (simp_all add: keeps_slots_delete keeps_slots_refl)
  next
    case ut
    show ?thesis
    proof (cases r)
      case Listeners
      with ut show ?thesis by (simp add: Let_def keeps_slots_refl)
    next
      case (TypeSet a)
      with ut ok show ?thesis
        by (cases "b = a") (simp_all add: Let_def keeps_slots_delete keeps_slots_refl)
    qed
  next
    case su
    with ok show ?thesis
      by (cases r) (simp_all add: subscribe_def keeps_slots_add keeps_slots_refl)
  next
    case st
    show ?thesis
    proof (cases r)
      case Listeners
      with st show ?thesis
        by (cases "typeListeners s t") (simp_all add: subscribeType_def Let_def keeps_slots_refl)
    next
      case (TypeSet a)
      with ok have a: "a < nextAddr s" by simp
      show ?thesis
      proof (cases "typeListeners s t")
        case None
        with st TypeSet a show ?thesis
          by (simp add: subscribeType_def Let_def keeps_slots_refl)
      next
        case (Some b)
        with st TypeSet a show ?thesis
          by (cases "b = a")
             (simp_all add: subscribeType_def Let_def keeps_slots_add keeps_slots_refl)
      qed
    qed
  qed
qed

lemma do_calls_keeps:
  assumes "\<forall>c \<in> set cs. c = Unsubscribe (UnsubListener l) \<or>
      (\<exists>t b. c = Unsubscribe (UnsubType t b l)) \<or>
      (\<exists>x. c = Subscribe x) \<or> (\<exists>t x. c = SubscribeType t x)"
    and "\<forall>a. r = TypeSet a \<longrightarrow> a < nextAddr s"
  shows "keeps_slots l (deref r s) (deref r (do_calls cs s)) \<and>
         (\<forall>a. r = TypeSet a \<longrightarrow> a < nextAddr (do_calls cs s))"
  using assms
proof (induction cs arbitrary: s)
  case Nil
  then show ?case by (simp add: do_calls_def keeps_slots_refl)
next
  case (Cons c cs)
  from Cons.prems(1) have c: "c = Unsubscribe (UnsubListener l) \<or>
      (\<exists>t b. c = Unsubscribe (UnsubType t b l)) \<or>
      (\<exists>x. c = Subscribe x) \<or> (\<exists>t x. c = SubscribeType t x)" by simp
  from Cons.prems(1) have cs: "\<forall>c \<in> set cs. c = Unsubscribe (UnsubListener l) \<or>
      (\<exists>t b. c = Unsubscribe (UnsubType t b l)) \<or>
      (\<exists>x. c = Subscribe x) \<or> (\<exists>t x. c = SubscribeType t x)" by simp
  note step = do_call_keeps [OF c Cons.prems(2)]
  note rest = Cons.IH [OF cs step [THEN conjunct2]]
  have "do_calls (c # cs) s = do_calls cs (do_call c s)" by (simp add: do_calls_def)
  with step rest show ?case by (metis keeps_slots_trans)
qed

lemma notify_keeps:
  assumes "\<forall>c \<in> set (fst (beh l e s)). c = Unsubscribe (UnsubListener l) \<or>
      (\<exists>t b. c = Unsubscribe (UnsubType t b l)) \<or>
      (\<exists>x. c = Subscribe x) \<or> (\<exists>t x. c = SubscribeType t x)"
    and "\<forall>a. r = TypeSet a \<longrightarrow> a < nextAddr s"
  shows "keeps_slots l (deref r s) (deref r (notify beh l e s)) \<and>
         (\<forall>a. r = TypeSet a \<longrightarrow> a < nextAddr (notify beh l e s))"
proof -
  let ?s1 = "s\<lparr>delivered := delivered s @ [(l, e)]\<rparr>"
  have ok: "\<forall>a. r = TypeSet a \<longrightarrow> a < nextAddr ?s1" using assms(2) by simp
  have d: "deref r ?s1 = deref r s" by (cases r) simp_all
  have n: "notify beh l e s = do_calls (fst (beh l e s)) ?s1"
    by (cases "snd (beh l e s)") (simp_all add: notify_def Let_def)
  from do_calls_keeps [OF assms(1) ok] show ?thesis unfolding n d .
qed

text \<open>
  A fan-out that ends has called the listener of every slot from \<open>i\<close> on that the set had
  when it began, if each call of a listener keeps the slots of the others.
\<close>

lemma fanout_partial:
  assumes run: "fanout beh e r i s = Some s'"
    and inv: "Inv s"
    and step: "\<And>s l. Inv s \<Longrightarrow>
        Inv (notify beh l e s) \<and> keeps_slots l (deref r s) (deref r (notify beh l e s))"
  shows "Inv s' \<and>
         (\<exists>D. delivered s' = delivered s @ D \<and>
              (\<forall>x. Some x \<in> set (drop i (deref r s)) \<longrightarrow> (x, e) \<in> set D))"
proof -
  have "beh' = beh \<longrightarrow> e' = e \<longrightarrow> r' = r \<longrightarrow> Inv s \<longrightarrow>
        Inv s' \<and>
        (\<exists>D. delivered s' = delivered s @ D \<and>
             (\<forall>x. Some x \<in> set (drop i (deref r s)) \<longrightarrow> (x, e) \<in> set D))"
    if "fanout beh' e' r' i s = Some s'" for beh' e' r'
    using that
  proof (induction rule: fanout.raw_induct [rotated 1, consumes 1])
    case (1 fanout' beh' e' r' i s s')
    show ?case
    proof (intro impI)
      assume b: "beh' = beh" and e: "e' = e" and r: "r' = r" and inv: "Inv s"
      show "Inv s' \<and>
        (\<exists>D. delivered s' = delivered s @ D \<and>
             (\<forall>x. Some x \<in> set (drop i (deref r s)) \<longrightarrow> (x, e) \<in> set D))"
      proof (cases "i < length (deref r s)")
        case False
        with 1(2) r have "s' = s" by simp
        with inv False show ?thesis by simp
      next
        case lt: True
        have dr: "drop i (deref r s) = deref r s ! i # drop (Suc i) (deref r s)"
          using lt by (simp add: Cons_nth_drop_Suc)
        show ?thesis
        proof (cases "deref r s ! i")
          case None
          with lt 1(2) r have "fanout' beh' e' r' (Suc i) s = Some s'" by simp
          from 1(1) [OF this] b e r inv obtain D where
            i': "Inv s'" and d: "delivered s' = delivered s @ D"
            and a: "\<forall>x. Some x \<in> set (drop (Suc i) (deref r s)) \<longrightarrow> (x, e) \<in> set D"
            by blast
          from a have "\<forall>x. Some x \<in> set (drop i (deref r s)) \<longrightarrow> (x, e) \<in> set D"
            unfolding dr None by simp
          with i' d show ?thesis by blast
        next
          case (Some l)
          let ?s1 = "notify beh l e s"
          from lt 1(2) r Some b e have "fanout' beh' e' r' (Suc i) ?s1 = Some s'" by simp
          moreover from step [OF inv] have i1: "Inv ?s1"
            and k: "keeps_slots l (deref r s) (deref r ?s1)" by simp_all
          ultimately obtain D where
            i': "Inv s'" and d: "delivered s' = delivered ?s1 @ D"
            and a: "\<forall>x. Some x \<in> set (drop (Suc i) (deref r ?s1)) \<longrightarrow> (x, e) \<in> set D"
            using 1(1) [of beh' e' r' "Suc i" ?s1 s'] b e r by blast
          have d': "delivered s' = delivered s @ (l, e) # D"
            using d by (simp add: notify_frame)
          have "(x, e) \<in> set ((l, e) # D)" if x: "Some x \<in> set (drop i (deref r s))" for x
          proof (cases "x = l")
            case True
            then show ?thesis by simp
          next
            case False
            with x have "Some x \<in> set (drop (Suc i) (deref r s))"
              unfolding dr Some by simp
            then obtain j where j: "Suc i \<le> j" "j < length (deref r s)" "deref r s ! j = Some x"
              by (metis in_set_drop_nth)
            with False k have "j < length (deref r ?s1)" "deref r ?s1 ! j = Some x"
              unfolding keeps_slots_def by auto
            with j(1) have "Some x \<in> set (drop (Suc i) (deref r ?s1))"
              by (metis in_set_drop_nth)
            with a show ?thesis by simp
          qed
          with i' d' show ?thesis by blast
        qed
      qed
    qed
  qed
  from this [OF run] inv show ?thesis by blast
qed

lemma fanout_invI:
  assumes "\<forall>t b. typeListeners s t = Some b \<longrightarrow> b < nextAddr s"
    and "a < nextAddr s"
    and "\<forall>t. typeListeners s t = Some a \<longrightarrow> t = ty"
    and "typeListeners s ty = Some a \<or> set_elems (heap s a) = []"
    and "n \<le> length (delivered s)"
    and "\<forall>x \<in> T. Some x \<in> set (heap s a) \<or> (x, e) \<in> set (drop n (delivered s))"
  shows "fanout_inv ty a T e n s"
  unfolding fanout_inv_def by (intro conjI) (rule assms)+

lemma fanout_invD:
  assumes "fanout_inv ty a T e n s"
  shows "\<forall>t b. typeListeners s t = Some b \<longrightarrow> b < nextAddr s"
    and "a < nextAddr s"
    and "\<forall>t. typeListeners s t = Some a \<longrightarrow> t = ty"
    and "typeListeners s ty = Some a \<or> set_elems (heap s a) = []"
    and "n \<le> length (delivered s)"
    and "\<forall>x \<in> T. Some x \<in> set (heap s a) \<or> (x, e) \<in> set (drop n (delivered s))"
proof -
  note k = assms [unfolded fanout_inv_def]
  show "\<forall>t b. typeListeners s t = Some b \<longrightarrow> b < nextAddr s" using k by (rule conjunct1)
  show "a < nextAddr s" using k by (rule conjunct1 [OF conjunct2])
  show "\<forall>t. typeListeners s t = Some a \<longrightarrow> t = ty"
    using k by (rule conjunct1 [OF conjunct2 [OF conjunct2]])
  show "typeListeners s ty = Some a \<or> set_elems (heap s a) = []"
    using k by (rule conjunct1 [OF conjunct2 [OF conjunct2 [OF conjunct2]]])
  show "n \<le> length (delivered s)"
    using k by (rule conjunct1 [OF conjunct2 [OF conjunct2 [OF conjunct2 [OF conjunct2]]]])
  show "\<forall>x \<in> T. Some x \<in> set (heap s a) \<or> (x, e) \<in> set (drop n (delivered s))"
    using k by (rule conjunct2 [OF conjunct2 [OF conjunct2 [OF conjunct2 [OF conjunct2]]]])
qed

text \<open>The invariant speaks of the map, of the set \<open>a\<close>, of the next address and of the calls made.\<close>

lemma fanout_inv_cong:
  assumes "fanout_inv ty a T e n s"
    and "typeListeners s' = typeListeners s" and "heap s' a = heap s a"
    and "nextAddr s' = nextAddr s" and "delivered s' = delivered s"
  shows "fanout_inv ty a T e n s'"
  using assms(1) unfolding fanout_inv_def assms(2-5) .

lemma inv_unsub_other:
  assumes K: "fanout_inv ty a T e n s" and "b \<noteq> a" and "t \<noteq> ty"
  shows "fanout_inv ty a T e n (call_unsub (UnsubType t b l) s)"
proof -
  note k = fanout_invD [OF K]
  let ?s2 = "call_unsub (UnsubType t b l) s"
  have h: "heap ?s2 a = heap s a" "nextAddr ?s2 = nextAddr s" "delivered ?s2 = delivered s"
    using assms(2) by (simp_all add: Let_def)
  have m: "typeListeners ?s2 = typeListeners s \<or> typeListeners ?s2 = (typeListeners s)(t := None)"
    by (simp add: Let_def)
  show ?thesis
  proof (rule fanout_invI)
    show "\<forall>t' b'. typeListeners ?s2 t' = Some b' \<longrightarrow> b' < nextAddr ?s2"
      unfolding h using m k(1) by (auto split: if_splits)
    show "a < nextAddr ?s2" unfolding h by (rule k(2))
    show "\<forall>t'. typeListeners ?s2 t' = Some a \<longrightarrow> t' = ty"
      using m k(3) by (auto split: if_splits)
    show "typeListeners ?s2 ty = Some a \<or> set_elems (heap ?s2 a) = []"
      unfolding h using m k(4) assms(3) by auto
    show "n \<le> length (delivered ?s2)" unfolding h by (rule k(5))
    show "\<forall>x \<in> T. Some x \<in> set (heap ?s2 a) \<or> (x, e) \<in> set (drop n (delivered ?s2))"
      unfolding h by (rule k(6))
  qed
qed

lemma inv_unsub_own:
  assumes K: "fanout_inv ty a T e n s" and del: "(l, e) \<in> set (drop n (delivered s))"
  shows "fanout_inv ty a T e n (call_unsub (UnsubType ty a l) s)"
proof -
  note k = fanout_invD [OF K]
  let ?s2 = "call_unsub (UnsubType ty a l) s"
  have h: "heap ?s2 a = set_delete l (heap s a)" "nextAddr ?s2 = nextAddr s"
    "delivered ?s2 = delivered s"
    by (simp_all add: Let_def)
  have m: "(typeListeners ?s2 = typeListeners s \<and> set_elems (set_delete l (heap s a)) \<noteq> []) \<or>
      (typeListeners ?s2 = (typeListeners s)(ty := None) \<and> set_elems (set_delete l (heap s a)) = [])"
    by (simp add: Let_def set_size_zero)
  show ?thesis
  proof (rule fanout_invI)
    show "\<forall>t' b'. typeListeners ?s2 t' = Some b' \<longrightarrow> b' < nextAddr ?s2"
      unfolding h using m k(1) by (auto split: if_splits)
    show "a < nextAddr ?s2" unfolding h by (rule k(2))
    show "\<forall>t'. typeListeners ?s2 t' = Some a \<longrightarrow> t' = ty"
      using m k(3) by (auto split: if_splits)
    show "typeListeners ?s2 ty = Some a \<or> set_elems (heap ?s2 a) = []"
      unfolding h using m k(4) by (auto simp: set_elems_delete)
    show "n \<le> length (delivered ?s2)" unfolding h by (rule k(5))
    show "\<forall>x \<in> T. Some x \<in> set (heap ?s2 a) \<or> (x, e) \<in> set (drop n (delivered ?s2))"
      unfolding h
    proof
      fix x assume "x \<in> T"
      with k(6) have "Some x \<in> set (heap s a) \<or> (x, e) \<in> set (drop n (delivered s))" by blast
      with del show "Some x \<in> set (set_delete l (heap s a)) \<or> (x, e) \<in> set (drop n (delivered s))"
        by (cases "x = l") (auto simp: in_set_delete)
    qed
  qed
qed

lemma inv_subscribeType_new:
  assumes K: "fanout_inv ty a T e n s" and "typeListeners s t = None"
  shows "fanout_inv ty a T e n (snd (subscribeType t x s))"
proof -
  note k = fanout_invD [OF K]
  let ?s2 = "snd (subscribeType t x s)"
  from k(2) have na: "nextAddr s \<noteq> a" by simp
  have h: "heap ?s2 a = heap s a" "nextAddr ?s2 = Suc (nextAddr s)"
    "delivered ?s2 = delivered s" "typeListeners ?s2 = (typeListeners s)(t \<mapsto> nextAddr s)"
    using assms(2) na by (simp_all add: subscribeType_def Let_def)
  show ?thesis
  proof (rule fanout_invI)
    show "\<forall>t' b'. typeListeners ?s2 t' = Some b' \<longrightarrow> b' < nextAddr ?s2"
      unfolding h using k(1) by (auto simp: less_Suc_eq)
    show "a < nextAddr ?s2" unfolding h using k(2) by simp
    show "\<forall>t'. typeListeners ?s2 t' = Some a \<longrightarrow> t' = ty"
      unfolding h using k(3) na by auto
    show "typeListeners ?s2 ty = Some a \<or> set_elems (heap ?s2 a) = []"
      unfolding h using k(4) assms(2) by (cases "t = ty") auto
    show "n \<le> length (delivered ?s2)" unfolding h by (rule k(5))
    show "\<forall>x \<in> T. Some x \<in> set (heap ?s2 a) \<or> (x, e) \<in> set (drop n (delivered ?s2))"
      unfolding h by (rule k(6))
  qed
qed

lemma inv_subscribeType_old:
  assumes K: "fanout_inv ty a T e n s" and "typeListeners s t = Some b"
  shows "fanout_inv ty a T e n (snd (subscribeType t x s))"
proof -
  note k = fanout_invD [OF K]
  let ?s2 = "snd (subscribeType t x s)"
  have h: "nextAddr ?s2 = nextAddr s" "delivered ?s2 = delivered s"
    "typeListeners ?s2 = typeListeners s"
    using assms(2) by (simp_all add: subscribeType_def)
  have ha: "heap ?s2 a = heap s a \<or> (heap ?s2 a = set_add x (heap s a) \<and> typeListeners s ty = Some a)"
  proof (cases "b = a")
    case False
    with assms(2) show ?thesis by (simp add: subscribeType_def)
  next
    case True
    with assms(2) k(3) have "typeListeners s ty = Some a" by blast
    with True assms(2) show ?thesis by (simp add: subscribeType_def)
  qed
  show ?thesis
  proof (rule fanout_invI)
    show "\<forall>t' b'. typeListeners ?s2 t' = Some b' \<longrightarrow> b' < nextAddr ?s2"
      unfolding h by (rule k(1))
    show "a < nextAddr ?s2" unfolding h by (rule k(2))
    show "\<forall>t'. typeListeners ?s2 t' = Some a \<longrightarrow> t' = ty" unfolding h by (rule k(3))
    show "typeListeners ?s2 ty = Some a \<or> set_elems (heap ?s2 a) = []"
      unfolding h using ha k(4) by auto
    show "n \<le> length (delivered ?s2)" unfolding h by (rule k(5))
    show "\<forall>x \<in> T. Some x \<in> set (heap ?s2 a) \<or> (x, e) \<in> set (drop n (delivered ?s2))"
      unfolding h
    proof
      fix y assume "y \<in> T"
      with k(6) have "Some y \<in> set (heap s a) \<or> (y, e) \<in> set (drop n (delivered s))" by blast
      with ha show "Some y \<in> set (heap ?s2 a) \<or> (y, e) \<in> set (drop n (delivered s))"
        by (auto simp: in_set_add)
    qed
  qed
qed

text \<open>One call of the listener \<open>l\<close>, which has been called with the entry.\<close>

lemma inv_do_call:
  assumes K: "fanout_inv ty a T e n s"
    and del: "(l, e) \<in> set (drop n (delivered s))"
    and c: "c = Unsubscribe (UnsubListener l) \<or>
      (\<exists>t b. c = Unsubscribe (UnsubType t b l) \<and> (b = a \<longleftrightarrow> t = ty)) \<or>
      (\<exists>x. c = Subscribe x) \<or> (\<exists>t x. c = SubscribeType t x)"
  shows "fanout_inv ty a T e n (do_call c s)"
proof -
  consider (ul) "c = Unsubscribe (UnsubListener l)"
    | (ut) t b where "c = Unsubscribe (UnsubType t b l)" "b = a \<longleftrightarrow> t = ty"
    | (su) x where "c = Subscribe x"
    | (st) t x where "c = SubscribeType t x"
    using c by blast
  then show ?thesis
  proof cases
    case ul
    show ?thesis unfolding ul by (rule fanout_inv_cong [OF K]) simp_all
  next
    case su
    show ?thesis unfolding su by (rule fanout_inv_cong [OF K]) (simp_all add: subscribe_def)
  next
    case ut
    show ?thesis
    proof (cases "b = a")
      case False
      with ut(2) have "t \<noteq> ty" by simp
      with K False show ?thesis unfolding ut(1) do_call.simps by (rule inv_unsub_other)
    next
      case True
      with ut(2) have "t = ty" by simp
      have "fanout_inv ty a T e n (call_unsub (UnsubType ty a l) s)"
        using K del by (rule inv_unsub_own)
      then show ?thesis unfolding ut(1) do_call.simps \<open>t = ty\<close> True .
    qed
  next
    case st
    show ?thesis
    proof (cases "typeListeners s t")
      case None
      with K show ?thesis unfolding st do_call.simps by (rule inv_subscribeType_new)
    next
      case (Some b)
      with K show ?thesis unfolding st do_call.simps by (rule inv_subscribeType_old)
    qed
  qed
qed

lemma inv_do_calls:
  assumes "fanout_inv ty a T e n s"
    and "(l, e) \<in> set (drop n (delivered s))"
    and "\<forall>c \<in> set cs. c = Unsubscribe (UnsubListener l) \<or>
      (\<exists>t b. c = Unsubscribe (UnsubType t b l) \<and> (b = a \<longleftrightarrow> t = ty)) \<or>
      (\<exists>x. c = Subscribe x) \<or> (\<exists>t x. c = SubscribeType t x)"
  shows "fanout_inv ty a T e n (do_calls cs s)"
  using assms
proof (induction cs arbitrary: s)
  case Nil
  then show ?case by (simp add: do_calls_def)
next
  case (Cons c cs)
  from Cons.prems(3) have c: "c = Unsubscribe (UnsubListener l) \<or>
      (\<exists>t b. c = Unsubscribe (UnsubType t b l) \<and> (b = a \<longleftrightarrow> t = ty)) \<or>
      (\<exists>x. c = Subscribe x) \<or> (\<exists>t x. c = SubscribeType t x)" by simp
  from Cons.prems(3) have cs: "\<forall>c \<in> set cs. c = Unsubscribe (UnsubListener l) \<or>
      (\<exists>t b. c = Unsubscribe (UnsubType t b l) \<and> (b = a \<longleftrightarrow> t = ty)) \<or>
      (\<exists>x. c = Subscribe x) \<or> (\<exists>t x. c = SubscribeType t x)" by simp
  have k: "fanout_inv ty a T e n (do_call c s)"
    using Cons.prems(1,2) c by (rule inv_do_call)
  have d: "(l, e) \<in> set (drop n (delivered (do_call c s)))"
    using Cons.prems(2) by (simp add: do_call_frame)
  have "do_calls (c # cs) s = do_calls cs (do_call c s)" by (simp add: do_calls_def)
  with Cons.IH [OF k d cs] show ?case by simp
qed

lemma inv_notify:
  assumes K: "fanout_inv ty a T e n s"
    and c: "\<forall>c \<in> set (fst (beh l e s)). c = Unsubscribe (UnsubListener l) \<or>
      (\<exists>t b. c = Unsubscribe (UnsubType t b l) \<and> (b = a \<longleftrightarrow> t = ty)) \<or>
      (\<exists>x. c = Subscribe x) \<or> (\<exists>t x. c = SubscribeType t x)"
  shows "fanout_inv ty a T e n (notify beh l e s)"
proof -
  let ?s1 = "s\<lparr>delivered := delivered s @ [(l, e)]\<rparr>"
  from K have k5: "n \<le> length (delivered s)" unfolding fanout_inv_def by blast
  then have dr: "drop n (delivered s @ [(l, e)]) = drop n (delivered s) @ [(l, e)]" by simp
  have k: "fanout_inv ty a T e n ?s1"
    using K unfolding fanout_inv_def by (auto simp: dr)
  have "(l, e) \<in> set (drop n (delivered s @ [(l, e)]))" unfolding dr by simp
  then have d: "(l, e) \<in> set (drop n (delivered ?s1))" by simp
  have n: "notify beh l e s = do_calls (fst (beh l e s)) ?s1"
    by (cases "snd (beh l e s)") (simp_all add: notify_def Let_def)
  from inv_do_calls [OF k d c] show ?thesis unfolding n .
qed

lemma append_self_unsub:
  fixes st :: "'p EventLog"
  assumes wf: "wf_log st"
    and js: "stringify \<lparr>seq = lastSeq st + 1, ts = now, type = ty, payload = pl\<rparr> = Some json"
    and su: "unsubscribes_itself_only beh \<lparr>seq = lastSeq st + 1, ts = now, type = ty, payload = pl\<rparr> st"
  shows "\<exists>st' T. append stringify beh now Written ty pl st =
             Some (Inr \<lparr>seq = lastSeq st + 1, ts = now, type = ty, payload = pl\<rparr>, st') \<and>
           delivered st' = delivered st @
             map (\<lambda>l. (l, \<lparr>seq = lastSeq st + 1, ts = now, type = ty, payload = pl\<rparr>))
               (set_elems (listeners st) @ T) \<and>
           set T \<subseteq> set (type_elems st ty) \<and>
           set (type_elems st ty) \<subseteq> set (set_elems (listeners st)) \<union> set T"
proof -
  let ?e = "\<lparr>seq = lastSeq st + 1, ts = now, type = ty, payload = pl\<rparr>"
  let ?st2 = "st\<lparr>lastSeq := lastSeq st + 1,
                 logFile := Some (content (logFile st) @ json @ [CHR 0x0A])\<rparr>"
  define a where "a = (case typeListeners st ty of Some a \<Rightarrow> a | None \<Rightarrow> nextAddr st)"
  have allowed: "\<forall>l s c. c \<in> set (fst (beh l ?e s)) \<longrightarrow>
        c = Unsubscribe (UnsubListener l) \<or>
      (\<exists>t b. c = Unsubscribe (UnsubType t b l) \<and> (b = a \<longleftrightarrow> t = ty))"
  proof (intro allI impI)
    fix l s c
    assume "c \<in> set (fst (beh l ?e s))"
    with su have "c = Unsubscribe (UnsubListener l) \<or>
        (\<exists>t b. typeListeners st t = Some b \<and> c = Unsubscribe (UnsubType t b l))"
      unfolding unsubscribes_itself_only_def by blast
    moreover have "b = a \<longleftrightarrow> t = ty" if tb: "typeListeners st t = Some b" for t b
    proof (cases "typeListeners st ty")
      case None
      with wf tb show ?thesis unfolding a_def wf_log_def by (metis less_irrefl option.simps(4) option.distinct(1))
    next
      case (Some a')
      with wf tb show ?thesis unfolding a_def wf_log_def by (metis option.simps(5) option.inject)
    qed
    ultimately show "c = Unsubscribe (UnsubListener l) \<or>
        (\<exists>t b. c = Unsubscribe (UnsubType t b l) \<and> (b = a \<longleftrightarrow> t = ty))"
      by blast
  qed
  from wf have dl: "distinct (set_elems (listeners ?st2))"
    and dh: "distinct (set_elems (heap ?st2 a))"
    unfolding wf_log_def by simp_all
  from global_phase [where beh = beh and e = ?e and ty = ty and a = a and start = ?st2,
      OF allowed dl dh]
  obtain st3 where f3: "fanout beh ?e Listeners 0 ?st2 = Some st3"
    and d3: "delivered st3 = delivered st @ map (\<lambda>l. (l, ?e)) (set_elems (listeners st))"
    and h3: "distinct (set_elems (heap st3 a))"
    and m3: "typeListeners st3 ty = typeListeners st ty \<or>
              (typeListeners st3 ty = None \<and> set_elems (heap st3 a) = [])"
    and sub3: "set (set_elems (heap st3 a)) \<subseteq> set (set_elems (heap st a))"
    and tr3: "\<forall>x \<in> set (set_elems (heap st a)).
              x \<in> set (set_elems (heap st3 a)) \<or> x \<in> set (set_elems (listeners st))"
    by auto
  have te: "type_elems st ty = (case typeListeners st ty of None \<Rightarrow> [] | Some b \<Rightarrow> set_elems (heap st a))"
    unfolding type_elems_def a_def by (cases "typeListeners st ty") simp_all
  show ?thesis
  proof (cases "typeListeners st3 ty")
    case None
    have ap: "append stringify beh now Written ty pl st = Some (Inr ?e, st3)"
      using js f3 None by (simp add: append_def Let_def)
    have cover: "set (type_elems st ty) \<subseteq> set (set_elems (listeners st))"
    proof (cases "typeListeners st ty")
      case None
      then show ?thesis by (simp add: te)
    next
      case (Some b)
      with m3 \<open>typeListeners st3 ty = None\<close> have "set_elems (heap st3 a) = []" by auto
      with tr3 Some show ?thesis by (auto simp: te)
    qed
    from ap d3 cover show ?thesis
      by (intro exI [of _ st3] exI [of _ "[]"]) simp
  next
    case (Some tSet)
    with m3 have same: "typeListeners st ty = Some tSet" by auto
    then have ta: "tSet = a" by (simp add: a_def)
    from type_phase [where beh = beh and e = ?e and ty = ty and a = a and mid = st3,
        OF allowed h3]
    obtain st4 where f4: "fanout beh ?e (TypeSet a) 0 st3 = Some st4"
      and d4: "delivered st4 = delivered st3 @ map (\<lambda>l. (l, ?e)) (set_elems (heap st3 a))"
      by auto
    have ap: "append stringify beh now Written ty pl st = Some (Inr ?e, st4)"
      using js f3 Some f4 ta by (simp add: append_def Let_def)
    have t0: "type_elems st ty = set_elems (heap st a)" using same by (simp add: te)
    from ap d3 d4 sub3 tr3 show ?thesis
      unfolding t0
      by (intro exI [of _ st4] exI [of _ "set_elems (heap st3 a)"]) auto
  qed
qed

lemma append_runs:
  assumes js: "stringify \<lparr>seq = lastSeq st + 1, ts = now, type = ty, payload = pl\<rparr> = Some json"
    and run: "append stringify beh now Written ty pl st = Some (r, st')"
  shows "r = Inr \<lparr>seq = lastSeq st + 1, ts = now, type = ty, payload = pl\<rparr> \<and>
    (\<exists>st3. fanout beh \<lparr>seq = lastSeq st + 1, ts = now, type = ty, payload = pl\<rparr> Listeners 0
              (st\<lparr>lastSeq := lastSeq st + 1,
                  logFile := Some (content (logFile st) @ json @ [CHR 0x0A])\<rparr>) = Some st3 \<and>
       (case typeListeners st3 ty of
          None \<Rightarrow> st' = st3
        | Some tSet \<Rightarrow>
            fanout beh \<lparr>seq = lastSeq st + 1, ts = now, type = ty, payload = pl\<rparr> (TypeSet tSet) 0 st3 =
              Some st'))"
  using run js by (auto simp: append_def Let_def split: option.splits)

lemma append_subscribing:
  fixes st :: "'p EventLog"
  assumes wf: "wf_log st"
    and js: "stringify \<lparr>seq = lastSeq st + 1, ts = now, type = ty, payload = pl\<rparr> = Some json"
    and su: "unsubscribes_itself_or_subscribes beh
               \<lparr>seq = lastSeq st + 1, ts = now, type = ty, payload = pl\<rparr> st"
    and run: "append stringify beh now Written ty pl st = Some (r, st')"
  shows "r = Inr \<lparr>seq = lastSeq st + 1, ts = now, type = ty, payload = pl\<rparr> \<and>
         (\<exists>D. delivered st' = delivered st @ D \<and>
              (\<forall>x \<in> set (set_elems (listeners st)) \<union> set (type_elems st ty).
                 (x, \<lparr>seq = lastSeq st + 1, ts = now, type = ty, payload = pl\<rparr>) \<in> set D))"
proof -
  let ?e = "\<lparr>seq = lastSeq st + 1, ts = now, type = ty, payload = pl\<rparr>"
  let ?st2 = "st\<lparr>lastSeq := lastSeq st + 1,
                 logFile := Some (content (logFile st) @ json @ [CHR 0x0A])\<rparr>"
  have weak: "\<forall>c \<in> set (fst (beh l ?e s)). c = Unsubscribe (UnsubListener l) \<or>
      (\<exists>t b. c = Unsubscribe (UnsubType t b l)) \<or>
      (\<exists>x. c = Subscribe x) \<or> (\<exists>t x. c = SubscribeType t x)" for l s
    using su unfolding unsubscribes_itself_or_subscribes_def by blast
  have wf2: "wf_log ?st2" using wf by (simp add: wf_log_def)
  from append_runs [OF js run] obtain st3 where r: "r = Inr ?e"
    and f3: "fanout beh ?e Listeners 0 ?st2 = Some st3"
    and ph2: "case typeListeners st3 ty of
          None \<Rightarrow> st' = st3
        | Some tSet \<Rightarrow> fanout beh ?e (TypeSet tSet) 0 st3 = Some st'"
    by blast
  have second: "\<exists>D2. delivered st' = delivered st3 @ D2 \<and>
      (\<forall>tSet x. typeListeners st3 ty = Some tSet \<and> Some x \<in> set (heap st3 tSet) \<longrightarrow>
         (x, ?e) \<in> set D2)"
    if w3: "wf_log st3"
  proof (cases "typeListeners st3 ty")
    case None
    with ph2 have "delivered st' = delivered st3 @ []" by simp
    with None show ?thesis by (metis option.distinct(1))
  next
    case (Some tSet)
    with ph2 have f4: "fanout beh ?e (TypeSet tSet) 0 st3 = Some st'" by simp
    from w3 Some have ok: "tSet < nextAddr st3" unfolding wf_log_def by blast
    have "tSet < nextAddr st' \<and>
         (\<exists>D. delivered st' = delivered st3 @ D \<and>
              (\<forall>x. Some x \<in> set (drop 0 (deref (TypeSet tSet) st3)) \<longrightarrow> (x, ?e) \<in> set D))"
    proof (rule fanout_partial [where Inv = "\<lambda>s. tSet < nextAddr s", OF f4 ok])
      fix s :: "'p EventLog" and l
      assume "tSet < nextAddr s"
      then have "\<forall>a. TypeSet tSet = TypeSet a \<longrightarrow> a < nextAddr s" by simp
      from notify_keeps [where beh = beh and l = l and e = ?e and s = s, OF weak this]
      show "tSet < nextAddr (notify beh l ?e s) \<and>
          keeps_slots l (deref (TypeSet tSet) s) (deref (TypeSet tSet) (notify beh l ?e s))"
        by simp
    qed
    then obtain D2 where "delivered st' = delivered st3 @ D2"
      and "\<forall>x. Some x \<in> set (heap st3 tSet) \<longrightarrow> (x, ?e) \<in> set D2"
      by auto
    with Some show ?thesis by (intro exI [of _ D2]) simp
  qed
  show ?thesis
  proof (cases "typeListeners st ty")
    case None
    have "wf_log st3 \<and>
         (\<exists>D. delivered st3 = delivered ?st2 @ D \<and>
              (\<forall>x. Some x \<in> set (drop 0 (deref Listeners ?st2)) \<longrightarrow> (x, ?e) \<in> set D))"
    proof (rule fanout_partial [where Inv = wf_log, OF f3 wf2])
      fix s :: "'p EventLog" and l
      assume w: "wf_log s"
      have "\<forall>a. Listeners = TypeSet a \<longrightarrow> a < nextAddr s" by simp
      from notify_keeps [where beh = beh and l = l and e = ?e and s = s, OF weak this]
        wf_notify [OF w]
      show "wf_log (notify beh l ?e s) \<and>
          keeps_slots l (deref Listeners s) (deref Listeners (notify beh l ?e s))"
        by simp
    qed
    then obtain D1 where w3: "wf_log st3" and d1: "delivered st3 = delivered st @ D1"
      and a1: "\<forall>x. Some x \<in> set (listeners st) \<longrightarrow> (x, ?e) \<in> set D1"
      by auto
    from second [OF w3] obtain D2 where d2: "delivered st' = delivered st3 @ D2" by blast
    have "delivered st' = delivered st @ (D1 @ D2)" using d1 d2 by simp
    moreover have "\<forall>x \<in> set (set_elems (listeners st)) \<union> set (type_elems st ty).
        (x, ?e) \<in> set (D1 @ D2)"
      using a1 None by (auto simp: type_elems_def set_elems_set)
    ultimately show ?thesis using r by blast
  next
    case (Some a)
    let ?T = "set (set_elems (heap st a))"
    let ?n = "length (delivered st)"
    have strong: "\<forall>c \<in> set (fst (beh l ?e s)). c = Unsubscribe (UnsubListener l) \<or>
        (\<exists>t b. c = Unsubscribe (UnsubType t b l) \<and> (b = a \<longleftrightarrow> t = ty)) \<or>
        (\<exists>x. c = Subscribe x) \<or> (\<exists>t x. c = SubscribeType t x)" for l s
    proof
      fix c assume "c \<in> set (fst (beh l ?e s))"
      with su have "c = Unsubscribe (UnsubListener l) \<or>
          (\<exists>t b. typeListeners st t = Some b \<and> c = Unsubscribe (UnsubType t b l)) \<or>
          (\<exists>x. c = Subscribe x) \<or> (\<exists>t x. c = SubscribeType t x)"
        unfolding unsubscribes_itself_or_subscribes_def by blast
      moreover have "b = a \<longleftrightarrow> t = ty" if "typeListeners st t = Some b" for t b
        using that wf Some unfolding wf_log_def by (metis option.inject)
      ultimately show "c = Unsubscribe (UnsubListener l) \<or>
          (\<exists>t b. c = Unsubscribe (UnsubType t b l) \<and> (b = a \<longleftrightarrow> t = ty)) \<or>
          (\<exists>x. c = Subscribe x) \<or> (\<exists>t x. c = SubscribeType t x)"
        by blast
    qed
    have k2: "fanout_inv ty a ?T ?e ?n ?st2"
    proof (rule fanout_invI)
      show "\<forall>t b. typeListeners ?st2 t = Some b \<longrightarrow> b < nextAddr ?st2"
        using wf unfolding wf_log_def by simp
      show "a < nextAddr ?st2" using wf Some unfolding wf_log_def by auto
      show "\<forall>t. typeListeners ?st2 t = Some a \<longrightarrow> t = ty"
        using wf Some unfolding wf_log_def by (metis select_convs(4) surjective update_convs(1,2))
      show "typeListeners ?st2 ty = Some a \<or> set_elems (heap ?st2 a) = []"
        using Some by simp
      show "?n \<le> length (delivered ?st2)" by simp
      show "\<forall>x \<in> ?T. Some x \<in> set (heap ?st2 a) \<or> (x, ?e) \<in> set (drop ?n (delivered ?st2))"
        by (simp add: set_elems_set)
    qed
    have "(wf_log st3 \<and> fanout_inv ty a ?T ?e ?n st3) \<and>
         (\<exists>D. delivered st3 = delivered ?st2 @ D \<and>
              (\<forall>x. Some x \<in> set (drop 0 (deref Listeners ?st2)) \<longrightarrow> (x, ?e) \<in> set D))"
    proof (rule fanout_partial [where Inv = "\<lambda>s. wf_log s \<and> fanout_inv ty a ?T ?e ?n s", OF f3])
      show "wf_log ?st2 \<and> fanout_inv ty a ?T ?e ?n ?st2" using wf2 k2 by (rule conjI)
    next
      fix s :: "'p EventLog" and l
      assume w: "wf_log s \<and> fanout_inv ty a ?T ?e ?n s"
      have "\<forall>a. Listeners = TypeSet a \<longrightarrow> a < nextAddr s" by simp
      from notify_keeps [where beh = beh and l = l and e = ?e and s = s, OF weak this]
        wf_notify [OF w [THEN conjunct1]]
        inv_notify [where beh = beh and l = l and s = s, OF w [THEN conjunct2] strong]
      show "(wf_log (notify beh l ?e s) \<and> fanout_inv ty a ?T ?e ?n (notify beh l ?e s)) \<and>
          keeps_slots l (deref Listeners s) (deref Listeners (notify beh l ?e s))"
        by simp
    qed
    then obtain D1 where w3: "wf_log st3" and k3: "fanout_inv ty a ?T ?e ?n st3"
      and d1: "delivered st3 = delivered st @ D1"
      and a1: "\<forall>x. Some x \<in> set (listeners st) \<longrightarrow> (x, ?e) \<in> set D1"
      by auto
    from second [OF w3] obtain D2 where d2: "delivered st' = delivered st3 @ D2"
      and a2: "\<forall>tSet x. typeListeners st3 ty = Some tSet \<and> Some x \<in> set (heap st3 tSet) \<longrightarrow>
         (x, ?e) \<in> set D2"
      by blast
    note k = fanout_invD [OF k3]
    have dr: "drop ?n (delivered st3) = D1" unfolding d1 by simp
    have d: "delivered st' = delivered st @ (D1 @ D2)" using d1 d2 by simp
    have g: "(x, ?e) \<in> set (D1 @ D2)" if "x \<in> set (set_elems (listeners st))" for x
      using that a1 by (simp add: set_elems_set)
    have t: "(x, ?e) \<in> set (D1 @ D2)" if x: "x \<in> ?T" for x
    proof (cases "Some x \<in> set (heap st3 a)")
      case False
      with k(6) x have "(x, ?e) \<in> set (drop ?n (delivered st3))" by blast
      then show ?thesis unfolding dr by simp
    next
      case True
      then have "set_elems (heap st3 a) \<noteq> []" by (auto simp: set_elems_empty_iff)
      with k(4) have "typeListeners st3 ty = Some a" by blast
      with a2 True have "(x, ?e) \<in> set D2" by blast
      then show ?thesis by simp
    qed
    have "\<forall>x \<in> set (set_elems (listeners st)) \<union> set (type_elems st ty). (x, ?e) \<in> set (D1 @ D2)"
      using g t Some by (auto simp: type_elems_def)
    with d r show ?thesis by blast
  qed
qed

text \<open>
  Claim C8, amended. The loops of the fan-out read the sets as they are at each step,
  not a copy taken at the start. While they are notified, the listeners make no other
  calls on the registry than calls of their own unsubscribe functions, of \<^verbatim>\<open>subscribe\<close> and
  of \<^verbatim>\<open>subscribeType\<close>. Then every \<^verbatim>\<open>append\<close> that returns has returned the entry, and has
  called with it every listener that was in the global set or in the set of the entry's
  type when the fan-out began. When the listeners call nothing but their own unsubscribe
  functions, the loops end, \<^verbatim>\<open>append\<close> returns, and the listeners called are those of the
  global set, in insertion order, followed by listeners of the set of the entry's type.
\<close>

theorem listeners_at_start_all_notified:
  assumes "wf_log st"
    and "stringify \<lparr>seq = lastSeq st + 1, ts = now, type = ty, payload = pl\<rparr> = Some json"
    and "unsubscribes_itself_or_subscribes beh
           \<lparr>seq = lastSeq st + 1, ts = now, type = ty, payload = pl\<rparr> st"
  shows "(\<forall>r st'. append stringify beh now Written ty pl st = Some (r, st') \<longrightarrow>
            r = Inr \<lparr>seq = lastSeq st + 1, ts = now, type = ty, payload = pl\<rparr> \<and>
            (\<exists>D. delivered st' = delivered st @ D \<and>
                 (\<forall>x \<in> set (set_elems (listeners st)) \<union> set (type_elems st ty).
                    (x, \<lparr>seq = lastSeq st + 1, ts = now, type = ty, payload = pl\<rparr>) \<in> set D))) \<and>
         (unsubscribes_itself_only beh
            \<lparr>seq = lastSeq st + 1, ts = now, type = ty, payload = pl\<rparr> st \<longrightarrow>
          (\<exists>st' T. append stringify beh now Written ty pl st =
               Some (Inr \<lparr>seq = lastSeq st + 1, ts = now, type = ty, payload = pl\<rparr>, st') \<and>
             delivered st' = delivered st @
               map (\<lambda>l. (l, \<lparr>seq = lastSeq st + 1, ts = now, type = ty, payload = pl\<rparr>))
                 (set_elems (listeners st) @ T) \<and>
             set T \<subseteq> set (type_elems st ty) \<and>
             set (type_elems st ty) \<subseteq> set (set_elems (listeners st)) \<union> set T))"
proof (intro conjI allI impI)
  fix r st'
  assume "append stringify beh now Written ty pl st = Some (r, st')"
  with assms have *: "r = Inr \<lparr>seq = lastSeq st + 1, ts = now, type = ty, payload = pl\<rparr> \<and>
         (\<exists>D. delivered st' = delivered st @ D \<and>
              (\<forall>x \<in> set (set_elems (listeners st)) \<union> set (type_elems st ty).
                 (x, \<lparr>seq = lastSeq st + 1, ts = now, type = ty, payload = pl\<rparr>) \<in> set D))"
    by (rule append_subscribing)
  from * show "r = Inr \<lparr>seq = lastSeq st + 1, ts = now, type = ty, payload = pl\<rparr>"
    by (rule conjunct1)
  from * show "\<exists>D. delivered st' = delivered st @ D \<and>
              (\<forall>x \<in> set (set_elems (listeners st)) \<union> set (type_elems st ty).
                 (x, \<lparr>seq = lastSeq st + 1, ts = now, type = ty, payload = pl\<rparr>) \<in> set D)"
    by (rule conjunct2)
next
  assume "unsubscribes_itself_only beh
            \<lparr>seq = lastSeq st + 1, ts = now, type = ty, payload = pl\<rparr> st"
  with assms(1,2) show "\<exists>st' T. append stringify beh now Written ty pl st =
               Some (Inr \<lparr>seq = lastSeq st + 1, ts = now, type = ty, payload = pl\<rparr>, st') \<and>
             delivered st' = delivered st @
               map (\<lambda>l. (l, \<lparr>seq = lastSeq st + 1, ts = now, type = ty, payload = pl\<rparr>))
                 (set_elems (listeners st) @ T) \<and>
             set T \<subseteq> set (type_elems st ty) \<and>
             set (type_elems st ty) \<subseteq> set (set_elems (listeners st)) \<union> set T"
    by (rule append_self_unsub)
qed

lemma canon_stringify_B1:
  "canon_stringify \<lparr>seq = 1, ts = 1000, type = ''B'', payload = ()\<rparr> =
     Some ''{\"seq\":1,\"ts\":1000,\"type\":\"B\",\"payload\":null}''"
  by (simp add: stringify_eval)

lemmas fanout_eval = append_def Let_def fanout.simps notify_def do_calls_def set_delete_def
  set_size_def

text \<open>
  Claim C8 as it is stated fails: the loop reads the set itself. The listeners 1 and 2
  are in the global set when the fan-out begins; the listener 1, when it is notified,
  calls the unsubscribe function of the listener 2; the slot of the listener 2 is empty
  when the loop reaches it, and the listener 2 is not called.
\<close>

theorem unsubscribed_during_fanout_counterexample:
  "set_elems (listeners log_12_A31) = [1, 2] \<and>
   append canon_stringify (caller 1 [Unsubscribe (UnsubListener 2)]) 1000 Written ''B'' ()
     log_12_A31 =
   Some (Inr \<lparr>seq = 1, ts = 1000, type = ''B'', payload = ()\<rparr>,
         log_12_A31
         \<lparr>lastSeq := 1,
          logFile := Some (''{\"seq\":1,\"ts\":1000,\"type\":\"B\",\"payload\":null}'' @ [CHR 0x0A]),
          listeners := [Some 1, None],
          delivered := [(1, \<lparr>seq = 1, ts = 1000, type = ''B'', payload = ()\<rparr>)]\<rparr>)"
  unfolding log_12_A31_eval
  by (simp add: fanout_eval canon_stringify_B1 caller_def)

theorem listeners_at_start_all_notified_witness:
  "wf_log log_12_A31 \<and>
   set_elems (listeners log_12_A31) = [1, 2] \<and> type_elems log_12_A31 ''A'' = [3, 1] \<and>
   unsubscribes_itself_or_subscribes (caller 1 [Subscribe 9])
     \<lparr>seq = 1, ts = 1000, type = ''A'', payload = ()\<rparr> log_12_A31 \<and>
   (\<exists>st'. append canon_stringify (caller 1 [Subscribe 9]) 1000 Written ''A'' () log_12_A31 =
        Some (Inr \<lparr>seq = 1, ts = 1000, type = ''A'', payload = ()\<rparr>, st') \<and>
      (1, \<lparr>seq = 1, ts = 1000, type = ''A'', payload = ()\<rparr>) \<in> set (delivered st') \<and>
      (2, \<lparr>seq = 1, ts = 1000, type = ''A'', payload = ()\<rparr>) \<in> set (delivered st') \<and>
      (3, \<lparr>seq = 1, ts = 1000, type = ''A'', payload = ()\<rparr>) \<in> set (delivered st')) \<and>
   unsubscribes_itself_only leaver \<lparr>seq = 1, ts = 1000, type = ''A'', payload = ()\<rparr> log_12_A31 \<and>
   (\<exists>st' T. append canon_stringify leaver 1000 Written ''A'' () log_12_A31 =
        Some (Inr \<lparr>seq = 1, ts = 1000, type = ''A'', payload = ()\<rparr>, st') \<and>
      delivered st' =
        map (\<lambda>l. (l, \<lparr>seq = 1, ts = 1000, type = ''A'', payload = ()\<rparr>)) ([1, 2] @ T) \<and>
      set T \<subseteq> {3, 1} \<and> {3, 1} \<subseteq> {1, 2} \<union> set T)"
proof -
  let ?e = "\<lparr>seq = 1, ts = 1000, type = ''A'', payload = ()\<rparr> :: unit EventLogEntry"
  have l: "lastSeq log_12_A31 = 0" "delivered log_12_A31 = []"
    "set_elems (listeners log_12_A31) = [1, 2]" "type_elems log_12_A31 ''A'' = [3, 1]"
    by (simp_all add: log_12_A31_eval type_elems_def)
  have h1: "canon_stringify \<lparr>seq = lastSeq log_12_A31 + 1, ts = 1000, type = ''A'', payload = ()\<rparr> =
      Some ''{\"seq\":1,\"ts\":1000,\"type\":\"A\",\"payload\":null}''"
    unfolding l using canon_stringify_A1 by simp
  have h2: "unsubscribes_itself_only leaver
      \<lparr>seq = lastSeq log_12_A31 + 1, ts = 1000, type = ''A'', payload = ()\<rparr> log_12_A31"
    by (auto simp: unsubscribes_itself_only_def leaver_def log_12_A31_eval)
  then have h2': "unsubscribes_itself_only leaver ?e log_12_A31"
    unfolding l by simp
  from h2 have h3: "unsubscribes_itself_or_subscribes leaver
      \<lparr>seq = lastSeq log_12_A31 + 1, ts = 1000, type = ''A'', payload = ()\<rparr> log_12_A31"
    unfolding unsubscribes_itself_only_def unsubscribes_itself_or_subscribes_def by blast
  have h4: "unsubscribes_itself_or_subscribes (caller 1 [Subscribe 9])
      \<lparr>seq = lastSeq log_12_A31 + 1, ts = 1000, type = ''A'', payload = ()\<rparr> log_12_A31"
    by (auto simp: unsubscribes_itself_or_subscribes_def caller_def)
  then have h4': "unsubscribes_itself_or_subscribes (caller 1 [Subscribe 9]) ?e log_12_A31"
    unfolding l by simp
  have "\<exists>st'. append canon_stringify (caller 1 [Subscribe 9]) 1000 Written ''A'' () log_12_A31 =
        Some (Inr ?e, st')"
    unfolding log_12_A31_eval
    by (simp add: fanout_eval canon_stringify_A1 caller_def subscribe_def set_add_def)
  then obtain s9 where ap: "append canon_stringify (caller 1 [Subscribe 9]) 1000 Written ''A'' ()
      log_12_A31 = Some (Inr ?e, s9)" by blast
  from listeners_at_start_all_notified [where stringify = canon_stringify
      and beh = "caller 1 [Subscribe 9]" and st = log_12_A31 and now = 1000 and ty = "''A''"
      and pl = "()", OF wf_log_12_A31 h1 h4, THEN conjunct1, rule_format, OF ap]
  obtain D where "delivered s9 = delivered log_12_A31 @ D"
    and "\<forall>x \<in> set (set_elems (listeners log_12_A31)) \<union> set (type_elems log_12_A31 ''A'').
           (x, \<lparr>seq = lastSeq log_12_A31 + 1, ts = 1000, type = ''A'', payload = ()\<rparr>) \<in> set D"
    by blast
  then have "(1, ?e) \<in> set (delivered s9) \<and> (2, ?e) \<in> set (delivered s9) \<and>
      (3, ?e) \<in> set (delivered s9)"
    unfolding l by simp
  with ap have sub: "\<exists>st'. append canon_stringify (caller 1 [Subscribe 9]) 1000 Written ''A'' ()
        log_12_A31 = Some (Inr ?e, st') \<and>
      (1, ?e) \<in> set (delivered st') \<and> (2, ?e) \<in> set (delivered st') \<and>
      (3, ?e) \<in> set (delivered st')"
    by blast
  from listeners_at_start_all_notified [where stringify = canon_stringify
      and beh = leaver and st = log_12_A31 and now = 1000 and ty = "''A''" and pl = "()",
      OF wf_log_12_A31 h1 h3, THEN conjunct2, THEN mp, OF h2]
  have lv: "\<exists>st' T. append canon_stringify leaver 1000 Written ''A'' () log_12_A31 =
        Some (Inr ?e, st') \<and>
      delivered st' = map (\<lambda>l. (l, ?e)) ([1, 2] @ T) \<and>
      set T \<subseteq> {3, 1} \<and> {3, 1} \<subseteq> {1, 2} \<union> set T"
    unfolding l by simp
  from wf_log_12_A31 l(3,4) h4' sub h2' lv show ?thesis by (intro conjI)
qed

text \<open>
  What the listeners get in the state above when the listener 1 subscribes the listener
  9: the loop over the global set finds the new slot and calls the listener 9 too.
\<close>

lemma subscribed_during_fanout_delivered:
  "\<exists>st'. append canon_stringify (caller 1 [Subscribe 9]) 1000 Written ''A'' () log_12_A31 =
        Some (Inr \<lparr>seq = 1, ts = 1000, type = ''A'', payload = ()\<rparr>, st') \<and>
      delivered st' =
        [(1, \<lparr>seq = 1, ts = 1000, type = ''A'', payload = ()\<rparr>),
         (2, \<lparr>seq = 1, ts = 1000, type = ''A'', payload = ()\<rparr>),
         (9, \<lparr>seq = 1, ts = 1000, type = ''A'', payload = ()\<rparr>),
         (3, \<lparr>seq = 1, ts = 1000, type = ''A'', payload = ()\<rparr>),
         (1, \<lparr>seq = 1, ts = 1000, type = ''A'', payload = ()\<rparr>)]"
  unfolding log_12_A31_eval
  by (simp add: fanout_eval canon_stringify_A1 caller_def subscribe_def set_add_def)

text \<open>
  What the listeners that unsubscribe themselves get in the state above: the listener 1
  is called for the global set and has left the set of the type when its turn there
  comes.
\<close>

lemma leavers_delivered:
  "\<exists>st'. append canon_stringify leaver 1000 Written ''A'' () log_12_A31 =
        Some (Inr \<lparr>seq = 1, ts = 1000, type = ''A'', payload = ()\<rparr>, st') \<and>
      delivered st' =
        [(1, \<lparr>seq = 1, ts = 1000, type = ''A'', payload = ()\<rparr>),
         (2, \<lparr>seq = 1, ts = 1000, type = ''A'', payload = ()\<rparr>),
         (3, \<lparr>seq = 1, ts = 1000, type = ''A'', payload = ()\<rparr>)]"
  unfolding log_12_A31_eval
  by (simp add: fanout_eval canon_stringify_A1 leaver_def)

text \<open>
  A fan-out need not end when listeners subscribe listeners: if every listener, when it
  is notified, subscribes one that was not registered before, the loop over the global
  set finds a new slot at every step, and \<^verbatim>\<open>append\<close> does not return.
\<close>

lemma spawner_fanout_never_ends:
  assumes "fanout beh entry r i st = Some st'"
  shows "\<not> (beh = spawner \<and> r = Listeners \<and> listeners st = map Some [0..<Suc i])"
  using assms
proof (induction rule: fanout.raw_induct [rotated 1, consumes 1])
  case (1 fanout' beh entry r i st st')
  show ?case
  proof
    assume h: "beh = spawner \<and> r = Listeners \<and> listeners st = map Some [0..<Suc i]"
    then have len: "i < length (deref r st)" and slot: "deref r st ! i = Some i"
      by (simp_all add: nth_append)
    let ?st1 = "notify beh i entry st"
    from 1(2) len slot have call: "fanout' beh entry r (Suc i) ?st1 = Some st'" by simp
    have "listeners ?st1 = map Some [0..<Suc (Suc i)]"
      using h by (auto simp: notify_def spawner_def do_calls_def subscribe_def set_add_def Let_def)
    with h have "beh = spawner \<and> r = Listeners \<and> listeners ?st1 = map Some [0..<Suc (Suc i)]"
      by simp
    with 1(1) [OF call] show False by blast
  qed
qed

lemma spawner_append_never_returns:
  "append canon_stringify spawner 1000 Written ''A'' () (snd (subscribe 0 (new_log None 0))) = None"
proof -
  let ?e = "\<lparr>seq = 1, ts = 1000, type = ''A'', payload = ()\<rparr>"
  let ?st2 = "\<lparr>logFile = Some (''{\"seq\":1,\"ts\":1000,\"type\":\"A\",\"payload\":null}'' @ [CHR 0x0A]),
      lastSeq = 1, listeners = [Some 0], typeListeners = Map.empty, heap = (\<lambda>a. []),
      nextAddr = 0, delivered = []\<rparr> :: unit EventLog"
  have "fanout spawner ?e Listeners 0 ?st2 = None"
  proof (cases "fanout spawner ?e Listeners 0 ?st2")
    case None
    then show ?thesis .
  next
    case (Some st')
    from spawner_fanout_never_ends [OF Some] show ?thesis by simp
  qed
  then show ?thesis
    by (simp add: append_def registry_eval canon_stringify_A1)
qed

end
